theory Spec2Isabelle
  imports Complex_Main
begin

section \<open>Numbers, vectors and matrices\<close>

text \<open>
  The program computes with numpy \<open>float64\<close> values. The embedding idealises them as
  real numbers: rounding, \<open>inf\<close> and \<open>nan\<close> are outside the model. The two places where
  the source starts from an infinite value (\<open>bestf = np.inf\<close>, and \<open>s = -np.inf\<close>,
  \<open>e = np.inf\<close> in \<open>one_qcqp\<close>) are modelled with an explicit extra value.

  A column vector (an \<open>N\<times>1\<close> numpy matrix) is a list of reals, a dense matrix is the list
  of its rows.
\<close>

type_synonym vec = "real list"
type_synonym mat = "real list list"

definition dot :: "vec \<Rightarrow> vec \<Rightarrow> real" where
  "dot xs ys = (\<Sum>(x, y)\<leftarrow>zip xs ys. x * y)"

definition vadd :: "vec \<Rightarrow> vec \<Rightarrow> vec" where
  "vadd xs ys = map2 (+) xs ys"

definition vsub :: "vec \<Rightarrow> vec \<Rightarrow> vec" where
  "vsub xs ys = map2 (-) xs ys"

definition smul :: "real \<Rightarrow> vec \<Rightarrow> vec" where
  "smul c xs = map (\<lambda>x. c * x) xs"

definition vdiv :: "vec \<Rightarrow> real \<Rightarrow> vec" where
  "vdiv xs c = map (\<lambda>x. x / c) xs"

definition zeros :: "nat \<Rightarrow> vec" where
  "zeros n = replicate n 0"

text \<open>\<open>np.sum(cols, 1)\<close>: the sum of the columns of an \<open>N\<times>M\<close> matrix given by its columns.\<close>

definition sum_cols :: "nat \<Rightarrow> vec list \<Rightarrow> vec" where
  "sum_cols n cols = foldr vadd cols (zeros n)"

text \<open>\<open>Q*v\<close> and \<open>Q.T*v\<close> for a dense square matrix \<open>Q\<close>.\<close>

definition mat_vec :: "mat \<Rightarrow> vec \<Rightarrow> vec" where
  "mat_vec Q v = map (\<lambda>row. dot row v) Q"

definition matT_vec :: "mat \<Rightarrow> vec \<Rightarrow> vec" where
  "matT_vec Q v = map (\<lambda>j. dot (map (\<lambda>row. row ! j) Q) v) [0..<length Q]"

text \<open>
  A scipy sparse matrix: its shape and its stored entries \<open>(row, column, value)\<close>.
  Entries stored at the same position add up (as in the COO format), so that the sum of two
  matrices stores the entries of both. \<open>nnz\<close> counts the stored entries.
\<close>

record spmat =
  sp_shape :: "nat \<times> nat"
  sp_entries :: "(nat \<times> nat \<times> real) list"

definition nnz :: "spmat \<Rightarrow> nat" where
  "nnz A = length (sp_entries A)"

definition csr_matrix :: "nat \<times> nat \<Rightarrow> spmat" where
  "csr_matrix sh = \<lparr>sp_shape = sh, sp_entries = []\<rparr>"

definition sp_identity :: "nat \<Rightarrow> spmat" where
  "sp_identity n = \<lparr>sp_shape = (n, n), sp_entries = map (\<lambda>i. (i, i, 1)) [0..<n]\<rparr>"

definition sp_scale :: "real \<Rightarrow> spmat \<Rightarrow> spmat" where
  "sp_scale c A = A\<lparr>sp_entries := map (\<lambda>(i, j, v). (i, j, c * v)) (sp_entries A)\<rparr>"

definition sp_neg :: "spmat \<Rightarrow> spmat" where
  "sp_neg A = A\<lparr>sp_entries := map (\<lambda>(i, j, v). (i, j, - v)) (sp_entries A)\<rparr>"

definition sp_add :: "spmat \<Rightarrow> spmat \<Rightarrow> spmat" where
  "sp_add A B = A\<lparr>sp_entries := sp_entries A @ sp_entries B\<rparr>"

definition sp_elem :: "spmat \<Rightarrow> nat \<Rightarrow> nat \<Rightarrow> real" where
  "sp_elem A i j = (\<Sum>(i', j', v)\<leftarrow>sp_entries A. if i' = i \<and> j' = j then v else 0)"

definition todense :: "spmat \<Rightarrow> mat" where
  "todense A = map (\<lambda>i. map (\<lambda>j. sp_elem A i j) [0..<snd (sp_shape A)]) [0..<fst (sp_shape A)]"

text \<open>\<open>A*x\<close> and the quadratic form \<open>x.T*A*x\<close> of a sparse matrix.\<close>

definition sp_matvec :: "spmat \<Rightarrow> vec \<Rightarrow> vec" where
  "sp_matvec A x =
     map (\<lambda>r. (\<Sum>(i, j, v)\<leftarrow>sp_entries A. if i = r then v * x ! j else 0)) [0..<fst (sp_shape A)]"

definition quad_form :: "spmat \<Rightarrow> vec \<Rightarrow> real" where
  "quad_form A x = (\<Sum>(i, j, v)\<leftarrow>sp_entries A. v * x ! i * x ! j)"

text \<open>The value of a quadratic expression \<open>x.T*A*x + x.T*b + c\<close>.\<close>

definition quad_val :: "spmat \<Rightarrow> vec \<Rightarrow> real \<Rightarrow> vec \<Rightarrow> real" where
  "quad_val A b c x = quad_form A x + dot x b + c"

text \<open>Shapes: an \<open>n\<times>n\<close> sparse matrix whose stored entries lie inside the shape.\<close>

definition sp_square :: "nat \<Rightarrow> spmat \<Rightarrow> bool" where
  "sp_square n A \<longleftrightarrow> sp_shape A = (n, n) \<and> list_all (\<lambda>(i, j, v). i < n \<and> j < n) (sp_entries A)"

section \<open>Errors and extended values\<close>

text \<open>
  The exceptions the source can raise. \<open>NonFinite\<close> marks the one place where numpy goes on
  with \<open>inf\<close> (a float64 divided by the integer zero), which the real-valued model does
  not follow.
\<close>

datatype error =
    Exception string
  | TypeError
  | ValueError
  | IndexError
  | ZeroDivisionError
  | ImportError
  | NonFinite

text \<open>A float that may be infinite: \<open>bestf\<close>, and the value an external solver reports.\<close>

datatype fval = Val real | PosInf | NegInf

fun fval_gt_real :: "fval \<Rightarrow> real \<Rightarrow> bool" where
  "fval_gt_real (Val a) b = (a > b)"
| "fval_gt_real PosInf b = True"
| "fval_gt_real NegInf b = False"

fun fval_le :: "fval \<Rightarrow> fval \<Rightarrow> bool" where
  "fval_le NegInf _ = True"
| "fval_le _ PosInf = True"
| "fval_le (Val a) (Val b) = (a \<le> b)"
| "fval_le _ _ = False"

fun fval_neg :: "fval \<Rightarrow> fval" where
  "fval_neg (Val a) = Val (- a)"
| "fval_neg PosInf = NegInf"
| "fval_neg NegInf = PosInf"

text \<open>\<open>np.min\<close> of a vector; it raises on an empty one.\<close>

definition np_min :: "vec \<Rightarrow> error + real" where
  "np_min xs = (case xs of [] \<Rightarrow> Inl ValueError | x # rest \<Rightarrow> Inr (fold min rest x))"

section \<open>The problem\<close>

text \<open>
  The modelling layer (cvxpy) and its \<open>QuadCoeffExtractor\<close> are external. A problem is
  given with what they report: for the objective and for each constraint whether the
  expression is quadratic, and the coefficients \<open>get_coeffs\<close> extracts. The \<open>i\<close>-th term of a
  constraint stands for \<open>(Ps[i], Q[i, :].T, R[i])\<close>, one per entry of the constraint's
  expression (\<open>sz\<close> of them).
\<close>

record quad_term =
  qt_P :: spmat
  qt_Q :: vec
  qt_R :: real

record constr =
  OP_NAME :: string
  expr_is_quadratic :: bool
  expr_coeffs :: "quad_term list"

record var =
  var_id :: nat
  var_size :: "nat \<times> nat"
  var_value :: "mat option"

record problem =
  objective_NAME :: string
  objective_is_quadratic :: bool
  objective_coeffs :: quad_term
  constraints :: "constr list"
  variables :: "var list"

fun get_id_map_from :: "var list \<Rightarrow> (nat \<rightharpoonup> nat) \<Rightarrow> nat \<Rightarrow> (nat \<rightharpoonup> nat) \<times> nat" where
  "get_id_map_from [] id_map N = (id_map, N)"
| "get_id_map_from (x # vars) id_map N =
     get_id_map_from vars (id_map(var_id x \<mapsto> N)) (N + fst (var_size x) * snd (var_size x))"

definition get_id_map :: "var list \<Rightarrow> (nat \<rightharpoonup> nat) \<times> nat" where
  "get_id_map vars = get_id_map_from vars Map.empty 0"

text \<open>The warning of \<open>check_quadraticity\<close> for a convex problem has no effect and is left out.\<close>

definition check_quadraticity :: "problem \<Rightarrow> error + unit" where
  "check_quadraticity prob =
     (if \<not> objective_is_quadratic prob then Inl (Exception ''Objective is not quadratic.'')
      else if \<not> list_all expr_is_quadratic (constraints prob)
        then Inl (Exception ''Not all constraints are quadratic.'')
      else Inr ())"

section \<open>Assigning a solution vector to the variables\<close>

text \<open>
  \<open>np.reshape(v, (r, c), order='F')\<close>: the entry at \<open>(i, j)\<close> is \<open>v[j*r + i]\<close>; it raises when
  \<open>v\<close> does not have \<open>r*c\<close> entries. A slice \<open>vals[ind:ind+size]\<close> is cut at the end of
  \<open>vals\<close>. Subscripting \<open>None\<close> raises a \<open>TypeError\<close>.
\<close>

definition reshape_F :: "vec \<Rightarrow> nat \<times> nat \<Rightarrow> error + mat" where
  "reshape_F v sz =
     (if length v \<noteq> fst sz * snd sz then Inl ValueError
      else Inr (map (\<lambda>i. map (\<lambda>j. v ! (j * fst sz + i)) [0..<snd sz]) [0..<fst sz]))"

fun assign_vars_from :: "nat \<Rightarrow> var list \<Rightarrow> vec option \<Rightarrow> error + var list" where
  "assign_vars_from ind [] vals = Inr []"
| "assign_vars_from ind (x # xs) vals =
     (let size = fst (var_size x) * snd (var_size x) in
      case vals of
        None \<Rightarrow> Inl TypeError
      | Some v \<Rightarrow>
          (case reshape_F (take size (drop ind v)) (var_size x) of
             Inl err \<Rightarrow> Inl err
           | Inr m \<Rightarrow>
               (case assign_vars_from (ind + size) xs vals of
                  Inl err \<Rightarrow> Inl err
                | Inr xs' \<Rightarrow> Inr (x\<lparr>var_value := Some m\<rparr> # xs'))))"

definition assign_vars :: "var list \<Rightarrow> vec option \<Rightarrow> error + var list" where
  "assign_vars xs vals = assign_vars_from 0 xs vals"

section \<open>The secular-equation solver\<close>

text \<open>
  \<open>LA.eigh\<close> is external: a parameter \<open>eigh\<close> that maps a dense matrix to its eigenvalues and
  the matrix whose columns are the eigenvectors.
\<close>

type_synonym eigh_fn = "mat \<Rightarrow> vec \<times> mat"

definition xhat_of :: "vec \<Rightarrow> vec \<Rightarrow> vec \<Rightarrow> real \<Rightarrow> vec" where
  "xhat_of lmb zhat bhat nu =
     map (\<lambda>(l, zh, bh). - ((nu * bh - 2 * zh) / (2 * (1 + nu * l)))) (zip lmb (zip zhat bhat))"

definition phi :: "vec \<Rightarrow> vec \<Rightarrow> vec \<Rightarrow> real \<Rightarrow> real \<Rightarrow> real" where
  "phi lmb zhat bhat c nu =
     (let xhat = xhat_of lmb zhat bhat nu in
      dot lmb (map (\<lambda>x. x ^ 2) xhat) + dot bhat xhat + c)"

text \<open>The bracket seeds: \<open>None\<close> stands for \<open>-np.inf\<close> in \<open>s\<close> and for \<open>np.inf\<close> in \<open>e\<close>.\<close>

fun seed_bracket :: "vec \<Rightarrow> real option \<times> real option \<Rightarrow> real option \<times> real option" where
  "seed_bracket [] (s, e) = (s, e)"
| "seed_bracket (l # ls) (s, e) =
     seed_bracket ls
       (if l > 0 then Some (case s of None \<Rightarrow> - 1 / l | Some s' \<Rightarrow> max s' (- 1 / l)) else s,
        if l < 0 then Some (case e of None \<Rightarrow> - 1 / l | Some e' \<Rightarrow> min e' (- 1 / l)) else e)"

text \<open>The three \<open>while\<close> loops. The doubling loops have no bound in the source.\<close>

partial_function (option) grow_s :: "(real \<Rightarrow> real) \<Rightarrow> real \<Rightarrow> real option" where
  "grow_s f s = (if f s \<le> 0 then grow_s f (s * 2) else Some s)"

partial_function (option) grow_e :: "(real \<Rightarrow> real) \<Rightarrow> real \<Rightarrow> real option" where
  "grow_e f e = (if f e \<ge> 0 then grow_e f (e * 2) else Some e)"

partial_function (option) bisect :: "(real \<Rightarrow> real) \<Rightarrow> real \<Rightarrow> real \<Rightarrow> real \<Rightarrow> (real \<times> real) option" where
  "bisect f tol s e =
     (if e - s > tol then
        (let m = (s + e) / 2; p = f m in
         if p > 0 then bisect f tol m e
         else if p < 0 then bisect f tol s m
         else Some (m, m))
      else Some (s, e))"

definition one_qcqp :: "eigh_fn \<Rightarrow> vec \<Rightarrow> spmat \<Rightarrow> vec \<Rightarrow> real \<Rightarrow> bool \<Rightarrow> real \<Rightarrow> vec option" where
  "one_qcqp eigh z A b c equality_cons tol =
     (if \<not> equality_cons \<and> quad_form A z + dot z b + c \<le> 0 then Some z
      else
        (let (lmb, Q) = eigh (todense A);
             zhat = matT_vec Q z;
             bhat = matT_vec Q b;
             f = phi lmb zhat bhat c;
             (s0, e0) = seed_bracket lmb (None, None) in
         case (case s0 of None \<Rightarrow> grow_s f (- 1) | Some s \<Rightarrow> Some s) of
           None \<Rightarrow> None
         | Some s \<Rightarrow>
             (case (case e0 of None \<Rightarrow> grow_e f 1 | Some e \<Rightarrow> Some e) of
                None \<Rightarrow> None
              | Some e \<Rightarrow>
                  (case bisect f tol s e of
                     None \<Rightarrow> None
                   | Some (s', e') \<Rightarrow>
                       (let nu = (s' + e') / 2;
                            xhat = xhat_of lmb zhat bhat nu in
                        Some (mat_vec Q xhat))))))"

section \<open>The DC splitter\<close>

definition split_quadratic :: "eigh_fn \<Rightarrow> spmat \<Rightarrow> error + (spmat \<times> spmat)" where
  "split_quadratic eigh P =
     (let n = fst (sp_shape P) in
      if nnz P = 0 then Inr (csr_matrix (n, n), csr_matrix (n, n))
      else
        (case np_min (fst (eigh (todense P))) of
           Inl err \<Rightarrow> Inl err
         | Inr lmb_min \<Rightarrow>
             if lmb_min < 0
             then Inr (sp_add P (sp_scale (1 - lmb_min) (sp_identity n)),
                       sp_scale (1 - lmb_min) (sp_identity n))
             else Inr (P, csr_matrix (n, n))))"

text \<open>
  What a correct eigensolver returns for an \<open>n\<times>n\<close> matrix \<open>A\<close>: \<open>n\<close> eigenvalues and an
  orthogonal \<open>Q\<close> (it preserves norms and \<open>Q*Q.T\<close> is the identity) with
  \<open>Q.T*A*Q = diag(lmb)\<close>. This is the assumption made about \<open>LA.eigh\<close> where a property
  depends on it.
\<close>

definition is_eigh :: "nat \<Rightarrow> spmat \<Rightarrow> vec \<times> mat \<Rightarrow> bool" where
  "is_eigh n A r \<longleftrightarrow>
     (case r of (lmb, Q) \<Rightarrow>
        length lmb = n \<and> length Q = n \<and> (\<forall>row \<in> set Q. length row = n) \<and>
        (\<forall>v. length v = n \<longrightarrow>
           dot (mat_vec Q v) (mat_vec Q v) = dot v v \<and>
           quad_form A (mat_vec Q v) = dot lmb (map (\<lambda>x. x ^ 2) v)) \<and>
        (\<forall>x. length x = n \<longrightarrow> mat_vec Q (matT_vec Q x) = x))"

text \<open>Positive semidefinite: the quadratic form is nowhere negative.\<close>

definition psd :: "nat \<Rightarrow> spmat \<Rightarrow> bool" where
  "psd n A \<longleftrightarrow> (\<forall>x. length x = n \<longrightarrow> 0 \<le> quad_form A x)"

section \<open>The SDP relaxation\<close>

text \<open>
  The relaxation is handed to an external SDP solver (\<open>rel_prob.solve\<close>), a parameter here.
  The relaxed problem is the data the source builds: the sense of the objective, the
  dimension \<open>N + 1\<close> of the lifted variable \<open>X\<close>, the matrix of the linear objective, and the
  constraints, the first of which is \<open>X[N, N] == 1\<close>. The solver reports a status, a value
  (possibly \<open>None\<close>) and the value of \<open>X\<close> (possibly \<open>None\<close>).
\<close>

datatype sdp_constraint = Corner_is_one nat | Lin_eq spmat | Lin_le spmat

record sdp_problem =
  sdp_sense :: string
  sdp_dim :: nat
  sdp_objective :: spmat
  sdp_constraints :: "sdp_constraint list"

record sdp_result =
  sdp_status :: string
  sdp_value :: "fval option"
  sdp_X :: "mat option"

type_synonym sdp_solver = "sdp_problem \<Rightarrow> sdp_result"

text \<open>\<open>sp.bmat([[P, q/2], [q.T/2, r]])\<close>\<close>

definition bmat :: "nat \<Rightarrow> quad_term \<Rightarrow> spmat" where
  "bmat N t =
     \<lparr>sp_shape = (N + 1, N + 1),
      sp_entries = sp_entries (qt_P t)
        @ map (\<lambda>i. (i, N, qt_Q t ! i / 2)) [0..<N]
        @ map (\<lambda>i. (N, i, qt_Q t ! i / 2)) [0..<N]
        @ [(N, N, qt_R t)]\<rparr>"

definition rel_constr_of :: "nat \<Rightarrow> constr \<Rightarrow> sdp_constraint list" where
  "rel_constr_of N con =
     map (\<lambda>t. if OP_NAME con = ''=='' then Lin_eq (bmat N t) else Lin_le (bmat N t))
       (expr_coeffs con)"

definition sdp_relaxation :: "nat \<Rightarrow> problem \<Rightarrow> sdp_problem" where
  "sdp_relaxation N prob =
     \<lparr>sdp_sense = objective_NAME prob,
      sdp_dim = N + 1,
      sdp_objective = bmat N (objective_coeffs prob),
      sdp_constraints = Corner_is_one N # concat (map (rel_constr_of N) (constraints prob))\<rparr>"

definition solve_SDP_relaxation ::
  "sdp_solver \<Rightarrow> problem \<Rightarrow> mat option \<times> fval option \<times> (nat \<rightharpoonup> nat) \<times> nat" where
  "solve_SDP_relaxation solve prob =
     (let (id_map, N) = get_id_map (variables prob);
          rel_prob = solve (sdp_relaxation N prob) in
      if sdp_status rel_prob \<notin> set [''optimal'', ''optimal_inaccurate'']
      then (None, sdp_value rel_prob, id_map, N)
      else (sdp_X rel_prob, sdp_value rel_prob, id_map, N))"

text \<open>
  \<open>X[:, -1]\<close> is the last column of \<open>X\<close>; on \<open>None\<close> the subscript raises a \<open>TypeError\<close>, on a
  matrix without columns an \<open>IndexError\<close>. \<open>relax_sdp\<close> returns the bound; the model returns
  the variables with their new values beside it.
\<close>

definition last_column :: "mat option \<Rightarrow> error + vec" where
  "last_column X =
     (case X of
        None \<Rightarrow> Inl TypeError
      | Some Xm \<Rightarrow> if list_ex (\<lambda>row. row = []) Xm then Inl IndexError else Inr (map last Xm))"

definition relax_sdp :: "sdp_solver \<Rightarrow> problem \<Rightarrow> error + (fval option \<times> var list)" where
  "relax_sdp solve self =
     (case check_quadraticity self of
        Inl err \<Rightarrow> Inl err
      | Inr _ \<Rightarrow>
          (let (X, sdp_bound, id_map, N) = solve_SDP_relaxation solve self in
           case last_column X of
             Inl err \<Rightarrow> Inl err
           | Inr col \<Rightarrow>
               (case assign_vars (variables self) (Some col) of
                  Inl err \<Rightarrow> Inl err
                | Inr vars' \<Rightarrow> Inr (sdp_bound, vars'))))"

section \<open>The consensus-ADMM heuristic\<close>

text \<open>
  The coefficients of the objective, with the sign turned for a maximisation, and the
  flattened constraint lists \<open>PP\<close>, \<open>QQ\<close>, \<open>RR\<close>, \<open>rel\<close>.
\<close>

definition objective_terms :: "problem \<Rightarrow> spmat \<times> vec \<times> real" where
  "objective_terms self =
     (let t = objective_coeffs self; P0 = qt_P t; Q0 = qt_Q t; R0 = qt_R t in
      if objective_NAME self = ''maximize'' then (sp_neg P0, smul (- 1) Q0, - R0)
      else (P0, Q0, R0))"

definition constraint_terms :: "problem \<Rightarrow> (quad_term \<times> bool) list" where
  "constraint_terms self =
     concat (map (\<lambda>con. map (\<lambda>t. (t, OP_NAME con = ''=='')) (expr_coeffs con)) (constraints self))"

text \<open>What stays fixed during a run.\<close>

record admm_data =
  ad_N :: nat
  ad_P0 :: spmat
  ad_Q0 :: vec
  ad_R0 :: real
  ad_PP :: "spmat list"
  ad_QQ :: "vec list"
  ad_RR :: "real list"
  ad_rel :: "bool list"
  ad_num_iters :: nat
  ad_viollim :: real
  ad_eps :: real

definition admm_data_of :: "problem \<Rightarrow> nat \<Rightarrow> real \<Rightarrow> real \<Rightarrow> admm_data" where
  "admm_data_of self num_iters viollim eps =
     (let (id_map, N) = get_id_map (variables self);
          (P0, Q0, R0) = objective_terms self;
          cs = constraint_terms self in
      \<lparr>ad_N = N, ad_P0 = P0, ad_Q0 = Q0, ad_R0 = R0,
       ad_PP = map (\<lambda>(t, r). qt_P t) cs, ad_QQ = map (\<lambda>(t, r). qt_Q t) cs,
       ad_RR = map (\<lambda>(t, r). qt_R t) cs, ad_rel = map snd cs,
       ad_num_iters = num_iters, ad_viollim = viollim, ad_eps = eps\<rparr>)"

text \<open>
  The initial penalty. With no constraint (\<open>M = 0\<close>) the Python float division \<open>1./M\<close> raises,
  while the numpy division \<open>2*(1-lmb_min)/M\<close> gives \<open>inf\<close>.
\<close>

definition initial_rho :: "real \<Rightarrow> nat \<Rightarrow> error + real" where
  "initial_rho lmb_min M =
     (if lmb_min < 0
      then (if M = 0 then Inl NonFinite else Inr (2 * (1 - lmb_min) / real M * 5))
      else (if M = 0 then Inl ZeroDivisionError else Inr (1 / real M * 5)))"

text \<open>The default tolerance \<open>tol=1e-6\<close> of \<open>one_qcqp\<close>, which the heuristic does not override.\<close>

definition default_tol :: real where
  "default_tol = 1 / 10 ^ 6"

text \<open>
  The loop \<open>for i in range(M)\<close> that projects on each constraint and updates its dual:
  columns \<open>i\<close> of \<open>xs\<close> and \<open>ys\<close> are overwritten in turn.
\<close>

fun local_updates ::
  "eigh_fn \<Rightarrow> admm_data \<Rightarrow> real \<Rightarrow> vec \<Rightarrow> nat list \<Rightarrow> vec list \<times> vec list \<Rightarrow> (vec list \<times> vec list) option" where
  "local_updates eigh d rho z [] (xs, ys) = Some (xs, ys)"
| "local_updates eigh d rho z (i # rest) (xs, ys) =
     (let zz = vadd z (smul (1 / rho) (ys ! i)) in
      case one_qcqp eigh zz (ad_PP d ! i) (ad_QQ d ! i) (ad_RR d ! i) (ad_rel d ! i) default_tol of
        None \<Rightarrow> None
      | Some x \<Rightarrow>
          local_updates eigh d rho z rest
            (xs[i := x], ys[i := vadd (ys ! i) (smul rho (vsub z x))]))"

definition violation :: "admm_data \<Rightarrow> vec \<Rightarrow> nat \<Rightarrow> real" where
  "violation d za i =
     (let viol = quad_form (ad_PP d ! i) za + dot za (ad_QQ d ! i) + ad_RR d ! i in
      if ad_rel d ! i then \<bar>viol\<bar> else max 0 viol)"

definition max_violation :: "admm_data \<Rightarrow> vec \<Rightarrow> real" where
  "max_violation d za = fold (\<lambda>i maxviol. max maxviol (violation d za i)) [0..<length (ad_PP d)] 0"

text \<open>
  One pass of the body of \<open>for t in range(num_iters)\<close> up to the computation of \<open>za\<close>: the
  new consensus point, local copies, duals and the averaged estimate. \<open>SLA.spsolve\<close> is
  external, a parameter.
\<close>

type_synonym spsolve_fn = "spmat \<Rightarrow> vec \<Rightarrow> vec"

definition admm_step ::
  "eigh_fn \<Rightarrow> spsolve_fn \<Rightarrow> admm_data \<Rightarrow> real \<Rightarrow> spmat \<Rightarrow> vec list \<times> vec list
     \<Rightarrow> (vec \<times> vec list \<times> vec list \<times> vec) option" where
  "admm_step eigh spsolve d rho zlhs st =
     (case st of (xs, ys) \<Rightarrow>
        (let M = length (ad_PP d);
             rhs = vsub (sum_cols (ad_N d) (map2 (\<lambda>x y. vsub (smul rho x) y) xs ys)) (ad_Q0 d);
             z = spsolve zlhs rhs in
         case local_updates eigh d rho z [0..<M] (xs, ys) of
           None \<Rightarrow> None
         | Some (xs', ys') \<Rightarrow>
             Some (z, xs', ys', vdiv (vadd (sum_cols (ad_N d) xs') z) (real (M + 1)))))"

text \<open>The best-found state \<open>(bestx, bestf)\<close> and its update.\<close>

type_synonym best = "vec option \<times> fval"

definition update_best :: "real \<Rightarrow> real \<Rightarrow> real \<Rightarrow> vec \<Rightarrow> best \<Rightarrow> best" where
  "update_best eps maxviol objt za b =
     (if maxviol < eps \<and> fval_gt_real (snd b) objt then (Some za, Val objt) else b)"

text \<open>
  The loop \<open>for t in range(num_iters)\<close>, by the number of passes left. It carries the local
  state \<open>(xs, ys)\<close> and the state that outlives the trial, \<open>rho\<close> and the best-found state.
  On \<open>maxviol > viollim\<close> the loop is left with \<open>rho\<close> doubled.
\<close>

fun admm_iters ::
  "eigh_fn \<Rightarrow> spsolve_fn \<Rightarrow> admm_data \<Rightarrow> spmat \<Rightarrow> nat \<Rightarrow> vec list \<times> vec list \<Rightarrow> real \<times> best
     \<Rightarrow> (real \<times> best) option" where
  "admm_iters eigh spsolve d zlhs 0 st (rho, b) = Some (rho, b)"
| "admm_iters eigh spsolve d zlhs (Suc k) st (rho, b) =
     (case admm_step eigh spsolve d rho zlhs st of
        None \<Rightarrow> None
      | Some (z, xs', ys', za) \<Rightarrow>
          (let maxviol = max_violation d za;
               objt = quad_form (ad_P0 d) za + dot za (ad_Q0 d) + ad_R0 d in
           if maxviol > ad_viollim d then Some (rho * 2, b)
           else admm_iters eigh spsolve d zlhs k (xs', ys')
                  (rho, update_best (ad_eps d) maxviol objt za b)))"

text \<open>
  One trial. The random draws are external: \<open>randn sample\<close> is the \<open>z\<close> drawn in trial
  \<open>sample\<close> (the draw for \<open>xs\<close> is overwritten by \<open>z\<close> before it is read).
\<close>

definition admm_trial ::
  "eigh_fn \<Rightarrow> spsolve_fn \<Rightarrow> (nat \<Rightarrow> vec) \<Rightarrow> admm_data \<Rightarrow> nat \<Rightarrow> real \<times> best \<Rightarrow> (real \<times> best) option" where
  "admm_trial eigh spsolve randn d sample g =
     (case g of (rho, b) \<Rightarrow>
        (let M = length (ad_PP d);
             z = randn sample;
             xs = replicate M z;
             ys = replicate M (zeros (ad_N d));
             zlhs = sp_add (sp_scale 2 (ad_P0 d)) (sp_scale (rho * real M) (sp_identity (ad_N d)))
         in admm_iters eigh spsolve d zlhs (ad_num_iters d) (xs, ys) (rho, b)))"

fun admm_trials ::
  "eigh_fn \<Rightarrow> spsolve_fn \<Rightarrow> (nat \<Rightarrow> vec) \<Rightarrow> admm_data \<Rightarrow> nat list \<Rightarrow> real \<times> best \<Rightarrow> (real \<times> best) option" where
  "admm_trials eigh spsolve randn d [] g = Some g"
| "admm_trials eigh spsolve randn d (sample # rest) g =
     (case admm_trial eigh spsolve randn d sample g of
        None \<Rightarrow> None
      | Some g' \<Rightarrow> admm_trials eigh spsolve randn d rest g')"

text \<open>
  The run up to the last trial: \<open>None\<close> when a doubling loop of \<open>one_qcqp\<close> never ends,
  otherwise an exception or the final penalty and best-found state.
\<close>

definition admm_run ::
  "eigh_fn \<Rightarrow> spsolve_fn \<Rightarrow> (nat \<Rightarrow> vec) \<Rightarrow> problem \<Rightarrow> nat \<Rightarrow> nat \<Rightarrow> real \<Rightarrow> real
     \<Rightarrow> (error + real \<times> best) option" where
  "admm_run eigh spsolve randn self num_samples num_iters viollim eps =
     (case check_quadraticity self of
        Inl err \<Rightarrow> Some (Inl err)
      | Inr _ \<Rightarrow>
          (let d = admm_data_of self num_iters viollim eps;
               M = length (ad_PP d);
               (lmb0, P0Q) = eigh (todense (ad_P0 d)) in
           case np_min lmb0 of
             Inl err \<Rightarrow> Some (Inl err)
           | Inr lmb_min \<Rightarrow>
               (case initial_rho lmb_min M of
                  Inl err \<Rightarrow> Some (Inl err)
                | Inr rho \<Rightarrow>
                    (case admm_trials eigh spsolve randn d [0..<num_samples] (rho, None, PosInf) of
                       None \<Rightarrow> None
                     | Some g \<Rightarrow> Some (Inr g)))))"

text \<open>\<open>noncvx_admm\<close> returns \<open>bestf\<close>; the model returns the assigned variables beside it.\<close>

definition noncvx_admm ::
  "eigh_fn \<Rightarrow> spsolve_fn \<Rightarrow> (nat \<Rightarrow> vec) \<Rightarrow> problem \<Rightarrow> nat \<Rightarrow> nat \<Rightarrow> real \<Rightarrow> real
     \<Rightarrow> (error + fval \<times> var list) option" where
  "noncvx_admm eigh spsolve randn self num_samples num_iters viollim eps =
     (case admm_run eigh spsolve randn self num_samples num_iters viollim eps of
        None \<Rightarrow> None
      | Some (Inl err) \<Rightarrow> Some (Inl err)
      | Some (Inr (rho, bestx, bestf)) \<Rightarrow>
          (case assign_vars (variables self) bestx of
             Inl err \<Rightarrow> Some (Inl err)
           | Inr vars' \<Rightarrow> Some (Inr (bestf, vars'))))"

text \<open>
  For stating what happens in pass \<open>t\<close> of a trial: the local state \<open>(xs, ys)\<close> before pass \<open>t\<close>,
  reached by \<open>t\<close> passes of \<open>admm_step\<close>, and the maximum violation of the averaged estimate
  that pass \<open>t\<close> computes. Both are \<open>None\<close> when a pass does not return. They follow the
  body of the loop without its \<open>break\<close>; what the loop does with a violation above \<open>viollim\<close>
  is in \<open>admm_iters\<close>.
\<close>

fun admm_state ::
  "eigh_fn \<Rightarrow> spsolve_fn \<Rightarrow> admm_data \<Rightarrow> real \<Rightarrow> spmat \<Rightarrow> nat \<Rightarrow> vec list \<times> vec list
     \<Rightarrow> (vec list \<times> vec list) option" where
  "admm_state eigh spsolve d rho zlhs 0 st = Some st"
| "admm_state eigh spsolve d rho zlhs (Suc t) st =
     (case admm_step eigh spsolve d rho zlhs st of
        None \<Rightarrow> None
      | Some (z, xs', ys', za) \<Rightarrow> admm_state eigh spsolve d rho zlhs t (xs', ys'))"

definition iterate_violation ::
  "eigh_fn \<Rightarrow> spsolve_fn \<Rightarrow> admm_data \<Rightarrow> real \<Rightarrow> spmat \<Rightarrow> nat \<Rightarrow> vec list \<times> vec list
     \<Rightarrow> real option" where
  "iterate_violation eigh spsolve d rho zlhs t st =
     (case admm_state eigh spsolve d rho zlhs t st of
        None \<Rightarrow> None
      | Some st' \<Rightarrow>
          (case admm_step eigh spsolve d rho zlhs st' of
             None \<Rightarrow> None
           | Some (z, xs', ys', za) \<Rightarrow> Some (max_violation d za)))"

section \<open>The DCCP reformulation\<close>

text \<open>
  The DC program handed to the external \<open>dccp\<close> solver: minimise the epigraph variable \<open>T\<close>
  under constraints \<open>quad_form(X, Pp) + X.T*q + r \<le> quad_form(X, Pm) [+ T]\<close>. The solver
  reports the first component of its result (possibly \<open>None\<close>) and the value of \<open>X\<close>.
\<close>

record dc_constraint =
  dc_Pp :: spmat
  dc_Q :: vec
  dc_R :: real
  dc_Pm :: spmat
  dc_plus_T :: bool

type_synonym dccp_solver = "nat \<Rightarrow> dc_constraint list \<Rightarrow> fval option \<times> vec option"

fun dc_constraints :: "eigh_fn \<Rightarrow> (quad_term \<times> bool) list \<Rightarrow> error + dc_constraint list" where
  "dc_constraints eigh [] = Inr []"
| "dc_constraints eigh ((t, r) # rest) =
     (case split_quadratic eigh (qt_P t) of
        Inl err \<Rightarrow> Inl err
      | Inr (Pp, Pm) \<Rightarrow>
          (case dc_constraints eigh rest of
             Inl err \<Rightarrow> Inl err
           | Inr cs \<Rightarrow>
               Inr (\<lparr>dc_Pp = Pp, dc_Q = qt_Q t, dc_R = qt_R t, dc_Pm = Pm, dc_plus_T = False\<rparr> # cs)))"

definition negate_result :: "fval option \<Rightarrow> error + fval option" where
  "negate_result r = (case r of None \<Rightarrow> Inl TypeError | Some v \<Rightarrow> Inr (Some (fval_neg v)))"

definition qcqp_dccp ::
  "bool \<Rightarrow> eigh_fn \<Rightarrow> dccp_solver \<Rightarrow> problem \<Rightarrow> error + (fval option \<times> var list)" where
  "qcqp_dccp dccp_installed eigh dccp_solve self =
     (case check_quadraticity self of
        Inl err \<Rightarrow> Inl err
      | Inr _ \<Rightarrow>
          if \<not> dccp_installed then Inl ImportError
          else
            (let (id_map, N) = get_id_map (variables self);
                 (P0, Q0, R0) = objective_terms self in
             case split_quadratic eigh P0 of
               Inl err \<Rightarrow> Inl err
             | Inr (P0p, P0m) \<Rightarrow>
                 (case dc_constraints eigh (constraint_terms self) of
                    Inl err \<Rightarrow> Inl err
                  | Inr cs \<Rightarrow>
                      (let cons = \<lparr>dc_Pp = P0p, dc_Q = Q0, dc_R = R0, dc_Pm = P0m, dc_plus_T = True\<rparr> # cs;
                           (result, X_value) = dccp_solve N cons in
                       case (if objective_NAME self = ''maximize'' then negate_result result
                             else Inr result) of
                         Inl err \<Rightarrow> Inl err
                       | Inr result' \<Rightarrow>
                           (case assign_vars (variables self) X_value of
                              Inl err \<Rightarrow> Inl err
                            | Inr vars' \<Rightarrow> Inr (result', vars'))))))"

section \<open>Small instances\<close>

text \<open>An eigensolver for \<open>1\<times>1\<close> matrices and the \<open>1\<times>1\<close> sparse matrix \<open>[[a]]\<close>, used to run the
  definitions on concrete problems with one scalar variable.\<close>

definition eigh_1x1 :: eigh_fn where
  "eigh_1x1 A = ([A ! 0 ! 0], [[1]])"

definition sp_1x1 :: "real \<Rightarrow> spmat" where
  "sp_1x1 a = \<lparr>sp_shape = (1, 1), sp_entries = [(0, 0, a)]\<rparr>"

text \<open>
  Reading an assignment back: the number of entries of a variable, the offset of the \<open>k\<close>-th
  variable in the flattened order, and the column-major flattening of a variable's value.
\<close>

definition var_count :: "var \<Rightarrow> nat" where
  "var_count x = fst (var_size x) * snd (var_size x)"

definition offset_of :: "var list \<Rightarrow> nat \<Rightarrow> nat" where
  "offset_of vars k = sum_list (map var_count (take k vars))"

definition flatten_F :: "mat \<Rightarrow> nat \<times> nat \<Rightarrow> vec" where
  "flatten_F m sz = concat (map (\<lambda>j. map (\<lambda>i. m ! i ! j) [0..<fst sz]) [0..<snd sz])"

definition var_flat :: "var \<Rightarrow> vec" where
  "var_flat x = (case var_value x of None \<Rightarrow> [] | Some m \<Rightarrow> flatten_F m (var_size x))"

text \<open>
  Problems in one scalar variable \<open>x\<close>: a term \<open>(a, b, c)\<close> stands for \<open>a*x^2 + b*x + c\<close>. A
  problem in two variables of sizes \<open>1\<times>1\<close> and \<open>2\<times>1\<close>, and SDP solvers that answer with a
  fixed result.
\<close>

definition scalar_term :: "real \<times> real \<times> real \<Rightarrow> quad_term" where
  "scalar_term t = (case t of (a, b, c) \<Rightarrow> \<lparr>qt_P = sp_1x1 a, qt_Q = [b], qt_R = c\<rparr>)"

definition scalar_problem :: "string \<Rightarrow> real \<times> real \<times> real \<Rightarrow> (string \<times> real \<times> real \<times> real) list \<Rightarrow> problem" where
  "scalar_problem sense obj cons =
     \<lparr>objective_NAME = sense, objective_is_quadratic = True, objective_coeffs = scalar_term obj,
      constraints = map (\<lambda>(op, t). \<lparr>OP_NAME = op, expr_is_quadratic = True,
                                     expr_coeffs = [scalar_term t]\<rparr>) cons,
      variables = [\<lparr>var_id = 0, var_size = (1, 1), var_value = None\<rparr>]\<rparr>"

definition two_var_problem :: problem where
  "two_var_problem =
     \<lparr>objective_NAME = ''minimize'', objective_is_quadratic = True,
      objective_coeffs = \<lparr>qt_P = \<lparr>sp_shape = (3, 3), sp_entries = [(0, 0, 1)]\<rparr>,
                          qt_Q = [0, 0, 0], qt_R = 0\<rparr>,
      constraints = [],
      variables = [\<lparr>var_id = 7, var_size = (1, 1), var_value = None\<rparr>,
                   \<lparr>var_id = 9, var_size = (2, 1), var_value = None\<rparr>]\<rparr>"

definition solver_optimal :: "mat \<Rightarrow> sdp_solver" where
  "solver_optimal X p = \<lparr>sdp_status = ''optimal'', sdp_value = Some (Val 0), sdp_X = Some X\<rparr>"

definition solver_infeasible :: sdp_solver where
  "solver_infeasible p = \<lparr>sdp_status = ''infeasible'', sdp_value = Some PosInf, sdp_X = None\<rparr>"

definition X_4x4 :: mat where
  "X_4x4 = [[1, 2, 3, 4], [2, 5, 6, 7], [3, 6, 8, 9], [4, 7, 9, 1]]"

text \<open>A linear solver for \<open>1\<times>1\<close> systems, standing for \<open>SLA.spsolve\<close> on problems in one variable.\<close>

definition spsolve_1x1 :: spsolve_fn where
  "spsolve_1x1 A b = [b ! 0 / sp_elem A 0 0]"

text \<open>
  Three problems in one variable: maximise \<open>1 - x^2\<close> subject to \<open>x^2 - 4 \<le> 0\<close>; minimise \<open>0\<close>
  subject to \<open>x^2 - 1 = 0\<close>; minimise \<open>x^2\<close> subject to \<open>x^2 - 4 \<le> 0\<close>.
\<close>

definition problem_max :: problem where
  "problem_max = scalar_problem ''maximize'' (- 1, 0, 1) [(''<='', 1, 0, - 4)]"

definition problem_eq :: problem where
  "problem_eq = scalar_problem ''minimize'' (0, 0, 0) [(''=='', 1, 0, - 1)]"

definition problem_min :: problem where
  "problem_min = scalar_problem ''minimize'' (1, 0, 0) [(''<='', 1, 0, - 4)]"

text \<open>Random draws for two trials: \<open>z = 1\<close> in the first, \<open>z = 1/2\<close> afterwards.\<close>

definition draws_min :: "nat \<Rightarrow> vec" where
  "draws_min sample = (if sample = 0 then [1] else [1 / 2])"

section \<open>Properties\<close>

subsection \<open>Vectors, quadratic forms and eigenvalues\<close>

lemma fold_min_le: "fold min xs (a::real) \<le> a"
proof (induction xs arbitrary: a)
  case Nil then show ?case by simp
next
  case (Cons x xs)
  have "fold min xs (min x a) \<le> min x a" by (rule Cons.IH)
  then show ?case by simp
qed

lemma fold_min_le_set: "y \<in> set xs \<Longrightarrow> fold min xs (a::real) \<le> y"
proof (induction xs arbitrary: a)
  case Nil then show ?case by simp
next
  case (Cons x xs)
  show ?case
  proof (cases "y = x")
    case True
    have "fold min xs (min x a) \<le> min x a" by (rule fold_min_le)
    with True show ?thesis by simp
  next
    case False
    with Cons show ?thesis by simp
  qed
qed

lemma fold_min_in: "fold min xs (a::real) = a \<or> fold min xs a \<in> set xs"
proof (induction xs arbitrary: a)
  case Nil then show ?case by simp
next
  case (Cons x xs)
  from Cons [of "min x a"] show ?case by (auto simp: min_def split: if_splits)
qed

lemma np_min_Inr:
  assumes "np_min xs = Inr m"
  shows "m \<in> set xs" and "\<forall>y \<in> set xs. m \<le> y"
proof -
  from assms obtain x rest where xs: "xs = x # rest" and m: "m = fold min rest x"
    by (auto simp: np_min_def split: list.splits)
  show "m \<in> set xs" using fold_min_in [of rest x] by (auto simp: xs m)
  show "\<forall>y \<in> set xs. m \<le> y"
    using fold_min_le [of rest x] fold_min_le_set [of _ rest x] by (auto simp: xs m)
qed

lemma np_min_nonempty: "xs \<noteq> [] \<Longrightarrow> \<exists>m. np_min xs = Inr m"
  by (cases xs) (auto simp: np_min_def)

lemma dot_self_nth: "dot x x = (\<Sum>i\<leftarrow>[0..<length x]. x ! i * x ! i)"
proof -
  have "map (\<lambda>i. x ! i * x ! i) [0..<length x] = map (\<lambda>a. a * a) (map ((!) x) [0..<length x])"
    by simp
  also have "\<dots> = map (\<lambda>a. a * a) x" by (simp only: map_nth)
  finally show ?thesis by (simp add: dot_def zip_same_conv_map comp_def)
qed

lemma dot_self_nonneg: "0 \<le> dot x x"
  by (induction x) (simp_all add: dot_def)

lemma quad_form_add: "quad_form (sp_add A B) x = quad_form A x + quad_form B x"
  by (simp add: quad_form_def sp_add_def)

lemma quad_entries_scale:
  "(\<Sum>(i, j, v)\<leftarrow>map (\<lambda>(i, j, v). (i, j, c * v)) es. v * x ! i * x ! j) =
   c * (\<Sum>(i, j, v)\<leftarrow>es. v * (x::real list) ! i * x ! j)"
  by (induction es) (auto simp: algebra_simps)

lemma quad_form_scale: "quad_form (sp_scale c A) x = c * quad_form A x"
  using quad_entries_scale [where es = "sp_entries A"] by (simp add: quad_form_def sp_scale_def)

lemma quad_form_identity: "quad_form (sp_identity (length x)) x = dot x x"
  by (simp add: quad_form_def sp_identity_def comp_def dot_self_nth)

lemma quad_form_zero: "quad_form (csr_matrix sh) x = 0"
  by (simp add: quad_form_def csr_matrix_def)

lemma sp_elem_add: "sp_elem (sp_add A B) i j = sp_elem A i j + sp_elem B i j"
  by (simp add: sp_elem_def sp_add_def)

lemma sp_elem_zero: "sp_elem (csr_matrix sh) i j = 0"
  by (simp add: sp_elem_def csr_matrix_def)

lemma split_quadratic_cases:
  "split_quadratic eigh P =
     (if nnz P = 0 then Inr (csr_matrix (fst (sp_shape P), fst (sp_shape P)),
                             csr_matrix (fst (sp_shape P), fst (sp_shape P)))
      else case np_min (fst (eigh (todense P))) of Inl err \<Rightarrow> Inl err
        | Inr lmb_min \<Rightarrow>
            if lmb_min < 0
            then Inr (sp_add P (sp_scale (1 - lmb_min) (sp_identity (fst (sp_shape P)))),
                      sp_scale (1 - lmb_min) (sp_identity (fst (sp_shape P))))
            else Inr (P, csr_matrix (fst (sp_shape P), fst (sp_shape P))))"
  by (simp add: split_quadratic_def Let_def)

text \<open>The Rayleigh bound that a correct eigendecomposition gives.\<close>

lemma dot_scale_bound:
  assumes "\<forall>l \<in> set lmb. m \<le> l" and "length lmb = length v"
  shows "m * dot v v \<le> dot lmb (map (\<lambda>x. x ^ 2) v)"
  using assms
proof (induction lmb arbitrary: v)
  case Nil then show ?case by (simp add: dot_def)
next
  case (Cons l lmb)
  then obtain a w where v: "v = a # w" by (cases v) auto
  from Cons.prems have "m * dot w w \<le> dot lmb (map (\<lambda>x. x ^ 2) w)"
    by (intro Cons.IH) (auto simp: v)
  moreover have "m * (a * a) \<le> l * a ^ 2"
    using Cons.prems(1) by (simp add: power2_eq_square mult_right_mono)
  ultimately show ?case by (simp add: v dot_def algebra_simps)
qed

lemma length_matT_vec: "length (matT_vec Q x) = length Q"
  by (simp add: matT_vec_def)

lemma eigh_rayleigh:
  assumes e: "is_eigh n A (lmb, Q)" and m: "np_min lmb = Inr m" and x: "length x = n"
  shows "m * dot x x \<le> quad_form A x"
proof -
  let ?v = "matT_vec Q x"
  from e have lenQ: "length Q = n" and lenl: "length lmb = n" by (auto simp: is_eigh_def)
  have lv: "length ?v = n" by (simp add: length_matT_vec lenQ)
  from e x have rt: "mat_vec Q ?v = x" by (auto simp: is_eigh_def)
  from e lv have nrm: "dot (mat_vec Q ?v) (mat_vec Q ?v) = dot ?v ?v"
    and qf: "quad_form A (mat_vec Q ?v) = dot lmb (map (\<lambda>x. x ^ 2) ?v)"
    by (auto simp: is_eigh_def)
  have "m * dot ?v ?v \<le> dot lmb (map (\<lambda>x. x ^ 2) ?v)"
    using np_min_Inr(2) [OF m] lenl lv by (intro dot_scale_bound) auto
  with rt nrm qf show ?thesis by simp
qed

lemma dot_replicate_zero: "dot xs (replicate n 0) = 0"
proof (induction xs arbitrary: n)
  case Nil then show ?case by (simp add: dot_def)
next
  case (Cons x xs)
  from Cons [of "n - 1"] show ?case by (cases n) (simp_all add: dot_def)
qed

lemma dot_unit:
  "k < length lmb \<Longrightarrow>
   dot lmb (map (\<lambda>x. x ^ 2) ((replicate (length lmb) 0)[k := 1])) = lmb ! k"
proof (induction lmb arbitrary: k)
  case Nil then show ?case by simp
next
  case (Cons l lmb)
  show ?case
  proof (cases k)
    case 0
    have "dot lmb (replicate (length lmb) 0) = 0" by (rule dot_replicate_zero)
    then show ?thesis using 0 by (simp add: dot_def)
  next
    case (Suc k')
    with Cons.prems have k': "k' < length lmb" by simp
    from Cons.IH [OF k'] Suc show ?thesis by (simp add: dot_def)
  qed
qed

lemma eigh_attained:
  assumes e: "is_eigh n A (lmb, Q)" and m: "np_min lmb = Inr m"
  shows "\<exists>x. length x = n \<and> quad_form A x = m"
proof -
  from e have lenQ: "length Q = n" and lenl: "length lmb = n" by (auto simp: is_eigh_def)
  from np_min_Inr(1) [OF m] obtain k where k: "k < length lmb" "lmb ! k = m"
    by (auto simp: in_set_conv_nth)
  let ?v = "(replicate n (0::real))[k := 1]"
  have lv: "length ?v = n" by simp
  from e lv have qf: "quad_form A (mat_vec Q ?v) = dot lmb (map (\<lambda>x. x ^ 2) ?v)"
    unfolding is_eigh_def by blast
  have "dot lmb (map (\<lambda>x. x ^ 2) ?v) = lmb ! k"
    using dot_unit [OF k(1)] by (simp add: lenl)
  with qf k have "quad_form A (mat_vec Q ?v) = m" by simp
  moreover have "length (mat_vec Q ?v) = n" by (simp add: mat_vec_def lenQ)
  ultimately show ?thesis by blast
qed

lemma quad_entries_elem:
  assumes "list_all (\<lambda>(i, j, v). i < n \<and> j < n) es"
  shows "(\<Sum>(i, j, v)\<leftarrow>es. v * (x::real list) ! i * x ! j) =
         (\<Sum>i<n. \<Sum>j<n. (\<Sum>(i', j', v)\<leftarrow>es. if i' = i \<and> j' = j then v else 0) * x ! i * x ! j)"
  using assms
proof (induction es)
  case Nil then show ?case by simp
next
  case (Cons t es)
  obtain a b v where t: "t = (a, b, v)" by (cases t) auto
  from Cons.prems have ab: "a < n" "b < n" and rest: "list_all (\<lambda>(i, j, v). i < n \<and> j < n) es"
    by (auto simp: t)
  have one: "(\<Sum>i<n. \<Sum>j<n. (if a = i \<and> b = j then v else 0) * x ! i * x ! j) = v * x ! a * x ! b"
  proof -
    have eq: "(if a = i \<and> b = j then v else 0) * x ! i * x ! j =
              (if j = b then (if i = a then v * x ! a * x ! b else 0) else 0)" for i j
      by auto
    show ?thesis by (simp only: eq) (simp add: ab sum.delta)
  qed
  have "(\<Sum>i<n. \<Sum>j<n. (\<Sum>(i', j', v)\<leftarrow>t # es. if i' = i \<and> j' = j then v else 0) * x ! i * x ! j) =
        (\<Sum>i<n. \<Sum>j<n. (if a = i \<and> b = j then v else 0) * x ! i * x ! j) +
        (\<Sum>i<n. \<Sum>j<n. (\<Sum>(i', j', v)\<leftarrow>es. if i' = i \<and> j' = j then v else 0) * x ! i * x ! j)"
    by (simp add: t algebra_simps sum.distrib)
  with one Cons.IH [OF rest] show ?case by (simp add: t)
qed

lemma quad_form_elem:
  "sp_square n A \<Longrightarrow> quad_form A x = (\<Sum>i<n. \<Sum>j<n. sp_elem A i j * x ! i * x ! j)"
  unfolding quad_form_def sp_elem_def sp_square_def by (intro quad_entries_elem) simp

lemma sp_elem_scale: "sp_elem (sp_scale c A) i j = c * sp_elem A i j"
proof -
  have "(\<Sum>(i', j', v)\<leftarrow>map (\<lambda>(i, j, v). (i, j, c * v)) es. if i' = i \<and> j' = j then v else 0) =
        c * (\<Sum>(i', j', v)\<leftarrow>es. if i' = i \<and> j' = j then v else 0)" for es :: "(nat \<times> nat \<times> real) list"
    by (induction es) (auto simp: algebra_simps)
  from this [of "sp_entries A"] show ?thesis by (simp add: sp_elem_def sp_scale_def)
qed

lemma psd_zero: "psd n (csr_matrix sh)"
  by (simp add: psd_def quad_form_zero)

lemma psd_scaled_identity: "0 \<le> c \<Longrightarrow> psd n (sp_scale c (sp_identity n))"
  using quad_form_identity dot_self_nonneg by (auto simp: psd_def quad_form_scale)

lemma spmat_empty: "sp_square n P \<Longrightarrow> nnz P = 0 \<Longrightarrow> P = csr_matrix (n, n)"
  by (simp add: sp_square_def nnz_def csr_matrix_def)

lemma nnz_pos_dim: "sp_square n P \<Longrightarrow> nnz P \<noteq> 0 \<Longrightarrow> 0 < n"
  by (cases "sp_entries P") (auto simp: sp_square_def nnz_def)

text \<open>
  C7. For an \<open>n\<times>n\<close> matrix \<open>P\<close> and a correct eigensolver, \<open>split_quadratic\<close> returns a pair
  \<open>(Pconvex, Pcorrection)\<close> whose elementwise difference is \<open>P\<close> and whose two components are
  positive semidefinite. A matrix whose entries are all zero yields two zero matrices, a
  positive semidefinite \<open>P\<close> yields \<open>(P, 0)\<close>, and a \<open>P\<close> whose minimum eigenvalue \<open>lmb_min\<close> is
  negative yields \<open>(P + (1 - lmb_min)*I, (1 - lmb_min)*I)\<close>.
\<close>

theorem split_quadratic_contract:
  assumes sq: "sp_square n P" and eig: "is_eigh n P (eigh (todense P))"
  shows "\<exists>Pconvex Pcorrection.
           split_quadratic eigh P = Inr (Pconvex, Pcorrection)
         \<and> (\<forall>i j. sp_elem Pconvex i j - sp_elem Pcorrection i j = sp_elem P i j)
         \<and> psd n Pconvex \<and> psd n Pcorrection
         \<and> ((\<forall>i j. sp_elem P i j = 0) \<longrightarrow>
               (\<forall>i j. sp_elem Pconvex i j = 0 \<and> sp_elem Pcorrection i j = 0))
         \<and> (psd n P \<longrightarrow> Pconvex = P \<and> Pcorrection = csr_matrix (n, n))
         \<and> (\<forall>lmb_min. np_min (fst (eigh (todense P))) = Inr lmb_min \<and> lmb_min < 0 \<longrightarrow>
               Pconvex = sp_add P (sp_scale (1 - lmb_min) (sp_identity n))
             \<and> Pcorrection = sp_scale (1 - lmb_min) (sp_identity n))"
proof -
  from sq have sh: "fst (sp_shape P) = n" by (simp add: sp_square_def)
  obtain lmb Q where lq: "eigh (todense P) = (lmb, Q)" by (cases "eigh (todense P)") auto
  with eig have e: "is_eigh n P (lmb, Q)" by simp
  then have lenl: "length lmb = n" by (simp add: is_eigh_def)
  show ?thesis
  proof (cases "nnz P = 0")
    case True
    with sq have P0: "P = csr_matrix (n, n)" by (rule spmat_empty)
    have res: "split_quadratic eigh P = Inr (csr_matrix (n, n), csr_matrix (n, n))"
      using True sh by (simp add: split_quadratic_cases)
    have nomin: "\<not> (np_min lmb = Inr m \<and> m < 0)" for m
    proof
      assume a: "np_min lmb = Inr m \<and> m < 0"
      with eigh_attained [OF e] obtain x where "quad_form P x = m" by blast
      with P0 have "m = 0" by (simp add: quad_form_zero)
      with a show False by simp
    qed
    from nomin have nomin': "\<not> (np_min (fst (eigh (todense P))) = Inr m \<and> m < 0)" for m
      by (simp add: lq)
    have el: "sp_elem P i j = 0" for i j by (subst P0) (rule sp_elem_zero)
    let ?Z = "csr_matrix (n, n)"
    have c1: "\<forall>i j. sp_elem ?Z i j - sp_elem ?Z i j = sp_elem P i j" by (simp add: el)
    have c2: "psd n ?Z" by (rule psd_zero)
    have c3: "\<forall>i j. sp_elem ?Z i j = 0 \<and> sp_elem ?Z i j = 0" by (simp add: sp_elem_zero)
    have c4: "?Z = P \<and> ?Z = csr_matrix (n, n)" using P0 by simp
    show ?thesis using res c1 c2 c3 c4 nomin' by blast
  next
    case False
    with sq have "0 < n" by (rule nnz_pos_dim)
    with lenl have "lmb \<noteq> []" by auto
    then obtain m where m: "np_min lmb = Inr m" using np_min_nonempty by blast
    from eigh_attained [OF e m] obtain x0 where x0: "length x0 = n" "quad_form P x0 = m" by blast
    show ?thesis
    proof (cases "m < 0")
      case True
      let ?I = "sp_scale (1 - m) (sp_identity n)"
      have res: "split_quadratic eigh P = Inr (sp_add P ?I, ?I)"
        using False True m sh by (simp add: split_quadratic_cases lq)
      have notpsd: "\<not> psd n P" using x0 True by (auto simp: psd_def)
      have notzero: "\<not> (\<forall>i j. sp_elem P i j = 0)"
      proof
        assume "\<forall>i j. sp_elem P i j = 0"
        then have "quad_form P x0 = 0" by (simp add: quad_form_elem [OF sq])
        with x0 True show False by simp
      qed
      have "psd n (sp_add P ?I)"
        unfolding psd_def
      proof (intro allI impI)
        fix x :: vec assume lx: "length x = n"
        have "m * dot x x \<le> quad_form P x" by (rule eigh_rayleigh [OF e m lx])
        moreover have "quad_form ?I x = (1 - m) * dot x x"
          using quad_form_identity [of x] lx by (simp add: quad_form_scale)
        moreover have "0 \<le> dot x x" by (rule dot_self_nonneg)
        ultimately show "0 \<le> quad_form (sp_add P ?I) x"
          by (simp add: quad_form_add algebra_simps)
      qed
      moreover have "psd n ?I" using True by (intro psd_scaled_identity) simp
      ultimately show ?thesis
        using res notpsd notzero m by (auto simp: lq sp_elem_add)
    next
      case nonneg: False
      have res: "split_quadratic eigh P = Inr (P, csr_matrix (n, n))"
        using False nonneg m sh by (simp add: split_quadratic_cases lq)
      have "psd n P"
        unfolding psd_def
      proof (intro allI impI)
        fix x :: vec assume lx: "length x = n"
        have "m * dot x x \<le> quad_form P x" by (rule eigh_rayleigh [OF e m lx])
        moreover have "0 \<le> m * dot x x" using nonneg dot_self_nonneg [of x] by simp
        ultimately show "0 \<le> quad_form P x" by simp
      qed
      then show ?thesis
        using res nonneg m by (auto simp: lq sp_elem_zero psd_zero)
    qed
  qed
qed

lemma sp_square_1x1: "sp_square 1 (sp_1x1 a)"
  by (simp add: sp_square_def sp_1x1_def)

lemma todense_1x1: "todense (sp_1x1 a) = [[a]]"
  by (simp add: todense_def sp_1x1_def sp_elem_def)

lemma is_eigh_1x1: "is_eigh 1 (sp_1x1 a) (eigh_1x1 (todense (sp_1x1 a)))"
proof -
  have "dot (mat_vec [[1]] v) (mat_vec [[1]] v) = dot v v \<and>
        quad_form (sp_1x1 a) (mat_vec [[1]] v) = dot [a] (map (\<lambda>x. x ^ 2) v)
        \<and> mat_vec [[1]] (matT_vec [[1]] v) = v" if "length v = 1" for v :: vec
  proof -
    from that obtain t where "v = [t]" by (cases v) auto
    then show ?thesis
      by (simp add: mat_vec_def matT_vec_def dot_def quad_form_def sp_1x1_def power2_eq_square)
  qed
  then show ?thesis by (simp add: is_eigh_def eigh_1x1_def todense_1x1)
qed

theorem split_quadratic_contract_witness:
  "sp_square 1 (sp_1x1 (- 1)) \<and> is_eigh 1 (sp_1x1 (- 1)) (eigh_1x1 (todense (sp_1x1 (- 1))))
   \<and> split_quadratic eigh_1x1 (sp_1x1 (- 1)) =
       Inr (sp_add (sp_1x1 (- 1)) (sp_scale 2 (sp_identity 1)), sp_scale 2 (sp_identity 1))
   \<and> psd 1 (sp_add (sp_1x1 (- 1)) (sp_scale 2 (sp_identity 1)))
   \<and> psd 1 (sp_scale 2 (sp_identity 1))
   \<and> sp_elem (sp_add (sp_1x1 (- 1)) (sp_scale 2 (sp_identity 1))) 0 0 = 1
   \<and> sp_elem (sp_scale 2 (sp_identity 1)) 0 0 = 2"
proof -
  have ev: "split_quadratic eigh_1x1 (sp_1x1 (- 1)) =
       Inr (sp_add (sp_1x1 (- 1)) (sp_scale 2 (sp_identity 1)), sp_scale 2 (sp_identity 1))"
  proof -
    have "nnz (sp_1x1 (- 1)) = 1" "fst (sp_shape (sp_1x1 (- 1))) = 1"
      by (simp_all add: sp_1x1_def nnz_def)
    then show ?thesis
      by (simp add: split_quadratic_cases todense_1x1 eigh_1x1_def np_min_def)
  qed
  have el: "sp_elem (sp_add (sp_1x1 (- 1)) (sp_scale 2 (sp_identity 1))) 0 0 = 1"
    "sp_elem (sp_scale 2 (sp_identity 1)) 0 0 = 2"
    by (simp_all add: sp_elem_def sp_add_def sp_scale_def sp_identity_def sp_1x1_def)
  have h1: "sp_square 1 (sp_1x1 (- 1))" by (rule sp_square_1x1)
  have h2: "is_eigh 1 (sp_1x1 (- 1)) (eigh_1x1 (todense (sp_1x1 (- 1))))" by (rule is_eigh_1x1)
  from split_quadratic_contract [where eigh = eigh_1x1, OF h1 h2] ev el h1 h2
  show ?thesis by auto
qed

subsection \<open>The fast path of the secular-equation solver\<close>

text \<open>
  C8. When the relation is an inequality (\<open>equality_cons\<close> false) and the target \<open>z\<close> already
  satisfies \<open>z.T*A*z + b.T*z + c \<le> 0\<close>, \<open>one_qcqp\<close> returns \<open>z\<close> itself, for every \<open>A\<close>, \<open>b\<close>, \<open>c\<close>
  of matching dimension (symmetric or not). The result does not depend on the eigensolver
  (any \<open>eigh\<close>, any tolerance): no eigendecomposition and no bisection takes part in it.
\<close>

theorem one_qcqp_fast_path:
  assumes "\<not> equality_cons"
    and "sp_square (length z) A" and "length b = length z"
    and "quad_val A b c z \<le> 0"
  shows "one_qcqp eigh z A b c equality_cons tol = Some z"
  using assms by (simp add: one_qcqp_def quad_val_def)

theorem one_qcqp_fast_path_witness:
  "\<not> False \<and> sp_square (length [1::real]) \<lparr>sp_shape = (1, 1), sp_entries = [(0, 0, 1)]\<rparr>
   \<and> length [0::real] = length [1::real]
   \<and> quad_val \<lparr>sp_shape = (1, 1), sp_entries = [(0, 0, 1)]\<rparr> [0] (- 4) [1] \<le> 0
   \<and> one_qcqp (\<lambda>A. ([1], [[1]])) [1] \<lparr>sp_shape = (1, 1), sp_entries = [(0, 0, 1)]\<rparr> [0] (- 4) False
        (1 / 10 ^ 6) = Some [1]"
proof -
  have h1: "sp_square (length [1::real]) \<lparr>sp_shape = (1, 1), sp_entries = [(0, 0, 1)]\<rparr>"
    by (simp add: sp_square_def)
  have h3: "length [0::real] = length [1::real]" by simp
  have h4: "quad_val \<lparr>sp_shape = (1, 1), sp_entries = [(0, 0, 1)]\<rparr> [0] (- 4) [1] \<le> 0"
    by (simp add: quad_val_def quad_form_def dot_def)
  have h0: "\<not> False" by simp
  from one_qcqp_fast_path [OF h0 h1 h3 h4, of "\<lambda>A. ([1], [[1]])" "1 / 10 ^ 6"] h1 h3 h4
  show ?thesis by simp
qed

subsection \<open>The SDP relaxation and the assignment of its point estimate\<close>

lemma map_nth_shift: "k + r \<le> length v \<Longrightarrow> map (\<lambda>i. v ! (k + i)) [0..<r] = take r (drop k v)"
  by (rule nth_equalityI) auto

lemma concat_chunks:
  "c * r \<le> length v \<Longrightarrow> concat (map (\<lambda>j. map (\<lambda>i. v ! (j * r + i)) [0..<r]) [0..<c]) = take (c * r) v"
proof (induction c)
  case 0 then show ?case by simp
next
  case (Suc c)
  then have le: "c * r + r \<le> length v" and le': "c * r \<le> length v" by auto
  have "take (c * r) v @ take r (drop (c * r) v) = take (c * r + r) v"
    by (simp add: take_add)
  with Suc.IH [OF le'] map_nth_shift [OF le] show ?case by (simp add: add.commute)
qed

lemma flatten_reshape:
  assumes "reshape_F v sz = Inr m"
  shows "flatten_F m sz = v"
proof -
  from assms have len: "length v = fst sz * snd sz"
    and m: "m = map (\<lambda>i. map (\<lambda>j. v ! (j * fst sz + i)) [0..<snd sz]) [0..<fst sz]"
    by (auto simp: reshape_F_def split: if_splits)
  have "flatten_F m sz = concat (map (\<lambda>j. map (\<lambda>i. v ! (j * fst sz + i)) [0..<fst sz]) [0..<snd sz])"
    unfolding flatten_F_def m by (intro arg_cong [where f = concat] map_cong refl) simp
  also have "\<dots> = take (snd sz * fst sz) v" by (rule concat_chunks) (simp add: len mult.commute)
  finally show ?thesis by (simp add: len mult.commute)
qed

lemma reshape_F_ok: "length v = fst sz * snd sz \<Longrightarrow> \<exists>m. reshape_F v sz = Inr m"
  by (simp add: reshape_F_def)

lemma offset_of_Cons: "offset_of (x # xs) (Suc k) = var_count x + offset_of xs k"
  by (simp add: offset_of_def)

lemma offset_of_0: "offset_of xs 0 = 0"
  by (simp add: offset_of_def)

lemma assign_vars_from_ok:
  assumes "ind + sum_list (map var_count xs) \<le> length v"
  shows "\<exists>xs'. assign_vars_from ind xs (Some v) = Inr xs' \<and> length xs' = length xs
     \<and> (\<forall>k < length xs. \<exists>m.
           reshape_F (take (var_count (xs ! k)) (drop (ind + offset_of xs k) v)) (var_size (xs ! k)) = Inr m
         \<and> xs' ! k = (xs ! k)\<lparr>var_value := Some m\<rparr>)
     \<and> concat (map var_flat xs') = take (sum_list (map var_count xs)) (drop ind v)"
  using assms
proof (induction xs arbitrary: ind)
  case Nil
  then show ?case by simp
next
  case (Cons x xs)
  let ?size = "var_count x"
  let ?sl = "take ?size (drop ind v)"
  from Cons.prems have le: "ind + ?size \<le> length v"
    and le': "(ind + ?size) + sum_list (map var_count xs) \<le> length v" by auto
  from le have "length ?sl = fst (var_size x) * snd (var_size x)"
    by (simp add: var_count_def)
  then obtain m where m: "reshape_F ?sl (var_size x) = Inr m" using reshape_F_ok by blast
  from Cons.IH [OF le'] obtain xs' where
    xs': "assign_vars_from (ind + ?size) xs (Some v) = Inr xs'" "length xs' = length xs"
    and each: "\<forall>k < length xs. \<exists>m.
           reshape_F (take (var_count (xs ! k)) (drop (ind + ?size + offset_of xs k) v)) (var_size (xs ! k)) = Inr m
         \<and> xs' ! k = (xs ! k)\<lparr>var_value := Some m\<rparr>"
    and flat: "concat (map var_flat xs') = take (sum_list (map var_count xs)) (drop (ind + ?size) v)"
    by blast
  have res: "assign_vars_from ind (x # xs) (Some v) = Inr (x\<lparr>var_value := Some m\<rparr> # xs')"
    using m xs' by (simp add: var_count_def)
  have k_all: "\<exists>m'. reshape_F (take (var_count ((x # xs) ! k)) (drop (ind + offset_of (x # xs) k) v))
                  (var_size ((x # xs) ! k)) = Inr m'
         \<and> (x\<lparr>var_value := Some m\<rparr> # xs') ! k = ((x # xs) ! k)\<lparr>var_value := Some m'\<rparr>"
    if "k < length (x # xs)" for k
  proof (cases k)
    case 0
    with m show ?thesis by (simp add: offset_of_0)
  next
    case (Suc k')
    with that have "k' < length xs" by simp
    with each Suc show ?thesis by (simp add: offset_of_Cons add.assoc)
  qed
  have "var_flat (x\<lparr>var_value := Some m\<rparr>) = ?sl"
    using flatten_reshape [OF m] by (simp add: var_flat_def)
  then have "concat (map var_flat (x\<lparr>var_value := Some m\<rparr> # xs')) =
        ?sl @ take (sum_list (map var_count xs)) (drop (ind + ?size) v)"
    using flat by simp
  also have "\<dots> = take (?size + sum_list (map var_count xs)) (drop ind v)"
    by (simp add: take_add add.commute)
  finally have fl: "concat (map var_flat (x\<lparr>var_value := Some m\<rparr> # xs')) =
      take (sum_list (map var_count (x # xs))) (drop ind v)" by simp
  show ?case
    using res xs'(2) k_all fl by (intro exI [of _ "x\<lparr>var_value := Some m\<rparr> # xs'"]) simp
qed

lemma get_id_map_from_spec:
  assumes "distinct (map var_id vars)" and "get_id_map_from vars m0 N0 = (m, N)"
  shows "N = N0 + sum_list (map var_count vars)
       \<and> (\<forall>k < length vars. m (var_id (vars ! k)) = Some (N0 + offset_of vars k))
       \<and> (\<forall>i. i \<notin> var_id ` set vars \<longrightarrow> m i = m0 i)"
  using assms
proof (induction vars arbitrary: m0 N0)
  case Nil
  then show ?case by simp
next
  case (Cons x vars)
  from Cons.prems have d: "distinct (map var_id vars)" and nx: "var_id x \<notin> var_id ` set vars"
    and rec: "get_id_map_from vars (m0(var_id x \<mapsto> N0)) (N0 + var_count x) = (m, N)"
    by (auto simp: var_count_def)
  from Cons.IH [OF d rec] have
    N: "N = N0 + var_count x + sum_list (map var_count vars)"
    and each: "\<forall>k < length vars. m (var_id (vars ! k)) = Some (N0 + var_count x + offset_of vars k)"
    and other: "\<forall>i. i \<notin> var_id ` set vars \<longrightarrow> m i = (m0(var_id x \<mapsto> N0)) i"
    by auto
  have "m (var_id ((x # vars) ! k)) = Some (N0 + offset_of (x # vars) k)" if "k < length (x # vars)" for k
  proof (cases k)
    case 0
    with other nx show ?thesis by (simp add: offset_of_0)
  next
    case (Suc k')
    with that each show ?thesis by (simp add: offset_of_Cons add.assoc)
  qed
  moreover have "\<forall>i. i \<notin> var_id ` set (x # vars) \<longrightarrow> m i = m0 i" using other by auto
  ultimately show ?case using N by simp
qed

lemma solve_SDP_relaxation_success:
  assumes "get_id_map (variables self) = (id_map, N)"
    and "sdp_status (solve (sdp_relaxation N self)) \<in> {''optimal'', ''optimal_inaccurate''}"
  shows "solve_SDP_relaxation solve self =
           (sdp_X (solve (sdp_relaxation N self)), sdp_value (solve (sdp_relaxation N self)), id_map, N)"
  using assms by (auto simp: solve_SDP_relaxation_def Let_def)

lemma solve_SDP_relaxation_failure:
  assumes "get_id_map (variables self) = (id_map, N)"
    and "sdp_status (solve (sdp_relaxation N self)) \<notin> {''optimal'', ''optimal_inaccurate''}"
  shows "solve_SDP_relaxation solve self =
           (None, sdp_value (solve (sdp_relaxation N self)), id_map, N)"
  using assms by (auto simp: solve_SDP_relaxation_def Let_def)

lemma last_column_square:
  assumes "length X = N + 1" and "\<forall>row \<in> set X. length row = N + 1"
  shows "last_column (Some X) = Inr (map last X)" and "length (map last X) = N + 1"
  using assms by (auto simp: last_column_def list_ex_iff)

text \<open>
  C10. When the SDP solver reports an optimal (or inaccurate-optimal) status with an
  \<open>(N+1)\<times>(N+1)\<close> matrix \<open>X\<close>, \<open>relax_sdp\<close> returns the solver's value and assigns to the \<open>k\<close>-th
  variable the slice of the last column of \<open>X\<close> that starts at the variable's offset in
  \<open>id_map\<close>, reshaped column-major. The slices lie within the first \<open>N\<close> entries, and the
  assigned values, flattened in the order of the variables, are exactly the last column
  without its final entry.
\<close>

theorem relax_sdp_point_estimate:
  assumes quad: "check_quadraticity self = Inr ()"
    and idm: "get_id_map (variables self) = (id_map, N)"
    and dist: "distinct (map var_id (variables self))"
    and ok: "sdp_status (solve (sdp_relaxation N self)) \<in> {''optimal'', ''optimal_inaccurate''}"
    and X: "sdp_X (solve (sdp_relaxation N self)) = Some X"
    and shape: "length X = N + 1" "\<forall>row \<in> set X. length row = N + 1"
  shows "\<exists>vars'. relax_sdp solve self = Inr (sdp_value (solve (sdp_relaxation N self)), vars')
     \<and> length vars' = length (variables self)
     \<and> (\<forall>k < length (variables self). \<exists>off m.
           id_map (var_id (variables self ! k)) = Some off
         \<and> off + var_count (variables self ! k) \<le> N
         \<and> reshape_F (take (var_count (variables self ! k)) (drop off (butlast (map last X))))
              (var_size (variables self ! k)) = Inr m
         \<and> vars' ! k = (variables self ! k)\<lparr>var_value := Some m\<rparr>)
     \<and> concat (map var_flat vars') = butlast (map last X)"
proof -
  let ?vars = "variables self"
  let ?col = "map last X"
  from idm have idm': "get_id_map_from ?vars Map.empty 0 = (id_map, N)"
    by (simp add: get_id_map_def)
  from get_id_map_from_spec [OF dist idm'] have
    N: "N = sum_list (map var_count ?vars)"
    and offs: "\<forall>k < length ?vars. id_map (var_id (?vars ! k)) = Some (offset_of ?vars k)"
    by auto
  have lcol: "length ?col = N + 1" using shape by simp
  have bl: "butlast ?col = take N ?col" using lcol by (simp add: butlast_conv_take)
  have "0 + sum_list (map var_count ?vars) \<le> length ?col" using N lcol by simp
  from assign_vars_from_ok [OF this] obtain vars' where
    as: "assign_vars_from 0 ?vars (Some ?col) = Inr vars'" and len: "length vars' = length ?vars"
    and each: "\<forall>k < length ?vars. \<exists>m.
           reshape_F (take (var_count (?vars ! k)) (drop (offset_of ?vars k) ?col)) (var_size (?vars ! k)) = Inr m
         \<and> vars' ! k = (?vars ! k)\<lparr>var_value := Some m\<rparr>"
    and flat: "concat (map var_flat vars') = take (sum_list (map var_count ?vars)) ?col"
    by auto
  have res: "relax_sdp solve self = Inr (sdp_value (solve (sdp_relaxation N self)), vars')"
    using quad solve_SDP_relaxation_success [where solve = solve, OF idm ok] X last_column_square(1) [OF shape] as
    by (simp add: relax_sdp_def assign_vars_def)
  have bound: "offset_of ?vars k + var_count (?vars ! k) \<le> N" if "k < length ?vars" for k
  proof -
    have "offset_of ?vars k + var_count (?vars ! k) = sum_list (map var_count (take (Suc k) ?vars))"
      using that by (simp add: offset_of_def take_Suc_conv_app_nth)
    also have "\<dots> \<le> sum_list (map var_count (take (Suc k) ?vars)) + sum_list (map var_count (drop (Suc k) ?vars))"
      by simp
    also have "\<dots> = sum_list (map var_count ?vars)"
      by (metis append_take_drop_id map_append sum_list.append)
    finally show ?thesis using N by simp
  qed
  have slice: "take c (drop off (take N ?col)) = take c (drop off ?col)" if "off + c \<le> N" for off c
    using that by (simp add: drop_take min_def)
  have "\<exists>off m. id_map (var_id (?vars ! k)) = Some off
         \<and> off + var_count (?vars ! k) \<le> N
         \<and> reshape_F (take (var_count (?vars ! k)) (drop off (butlast ?col))) (var_size (?vars ! k)) = Inr m
         \<and> vars' ! k = (?vars ! k)\<lparr>var_value := Some m\<rparr>" if k: "k < length ?vars" for k
  proof -
    from each k obtain m where
      "reshape_F (take (var_count (?vars ! k)) (drop (offset_of ?vars k) ?col)) (var_size (?vars ! k)) = Inr m"
      "vars' ! k = (?vars ! k)\<lparr>var_value := Some m\<rparr>" by blast
    with offs k bound [OF k] slice [OF bound [OF k]] show ?thesis by (simp add: bl)
  qed
  with res len flat N bl show ?thesis by auto
qed

text \<open>
  C2. When the SDP solver reports a status that is neither optimal nor inaccurate-optimal,
  \<open>solve_SDP_relaxation\<close> returns \<open>None\<close> in place of \<open>X\<close> together with the reported value, and
  \<open>relax_sdp\<close> then subscripts that \<open>None\<close>: it raises a \<open>TypeError\<close> and returns nothing.
\<close>

theorem relax_sdp_solver_failure:
  assumes quad: "check_quadraticity self = Inr ()"
    and idm: "get_id_map (variables self) = (id_map, N)"
    and bad: "sdp_status (solve (sdp_relaxation N self)) \<notin> {''optimal'', ''optimal_inaccurate''}"
  shows "solve_SDP_relaxation solve self = (None, sdp_value (solve (sdp_relaxation N self)), id_map, N)
       \<and> relax_sdp solve self = Inl TypeError"
  using quad solve_SDP_relaxation_failure [where solve = solve, OF idm bad]
  by (simp add: relax_sdp_def last_column_def)

theorem relax_sdp_point_estimate_witness:
  "check_quadraticity two_var_problem = Inr ()
   \<and> get_id_map (variables two_var_problem) = ([7 \<mapsto> 0, 9 \<mapsto> 1], 3)
   \<and> distinct (map var_id (variables two_var_problem))
   \<and> sdp_status (solver_optimal X_4x4 (sdp_relaxation 3 two_var_problem)) \<in> {''optimal'', ''optimal_inaccurate''}
   \<and> sdp_X (solver_optimal X_4x4 (sdp_relaxation 3 two_var_problem)) = Some X_4x4
   \<and> length X_4x4 = 3 + 1 \<and> map length X_4x4 = [3 + 1, 3 + 1, 3 + 1, 3 + 1]
   \<and> (\<exists>vars'. relax_sdp (solver_optimal X_4x4) two_var_problem = Inr (Some (Val 0), vars')
         \<and> concat (map var_flat vars') = [4, 7, 9])"
proof -
  have h1: "check_quadraticity two_var_problem = Inr ()"
    by (simp add: check_quadraticity_def two_var_problem_def)
  have h2: "get_id_map (variables two_var_problem) = ([7 \<mapsto> 0, 9 \<mapsto> 1], 3)"
    by (simp add: get_id_map_def two_var_problem_def)
  have h3: "distinct (map var_id (variables two_var_problem))"
    by (simp add: two_var_problem_def)
  have h4: "sdp_status (solver_optimal X_4x4 (sdp_relaxation 3 two_var_problem)) \<in> {''optimal'', ''optimal_inaccurate''}"
    by (simp add: solver_optimal_def)
  have h5: "sdp_X (solver_optimal X_4x4 (sdp_relaxation 3 two_var_problem)) = Some X_4x4"
    by (simp add: solver_optimal_def)
  have h6: "length X_4x4 = 3 + 1" by (simp add: X_4x4_def)
  have h7: "\<forall>row \<in> set X_4x4. length row = 3 + 1" by (simp add: X_4x4_def)
  have v: "sdp_value (solver_optimal X_4x4 (sdp_relaxation 3 two_var_problem)) = Some (Val 0)"
    by (simp add: solver_optimal_def)
  have bl: "butlast (map last X_4x4) = [4, 7, 9]" by (simp add: X_4x4_def)
  from relax_sdp_point_estimate [where solve = "solver_optimal X_4x4", OF h1 h2 h3 h4 h5 h6 h7]
  have "\<exists>vars'. relax_sdp (solver_optimal X_4x4) two_var_problem = Inr (Some (Val 0), vars')
         \<and> concat (map var_flat vars') = [4, 7, 9]"
    unfolding v bl by blast
  moreover have "map length X_4x4 = [3 + 1, 3 + 1, 3 + 1, 3 + 1]" by (simp add: X_4x4_def)
  ultimately show ?thesis using h1 h2 h3 h4 h5 h6 by blast
qed

theorem relax_sdp_solver_failure_witness:
  "check_quadraticity (scalar_problem ''minimize'' (1, 0, 0) [(''<='', 1, 0, 1)]) = Inr ()
   \<and> get_id_map (variables (scalar_problem ''minimize'' (1, 0, 0) [(''<='', 1, 0, 1)])) = ([0 \<mapsto> 0], 1)
   \<and> sdp_status (solver_infeasible (sdp_relaxation 1 (scalar_problem ''minimize'' (1, 0, 0) [(''<='', 1, 0, 1)])))
       \<notin> {''optimal'', ''optimal_inaccurate''}
   \<and> solve_SDP_relaxation solver_infeasible (scalar_problem ''minimize'' (1, 0, 0) [(''<='', 1, 0, 1)])
       = (None, Some PosInf, [0 \<mapsto> 0], 1)
   \<and> relax_sdp solver_infeasible (scalar_problem ''minimize'' (1, 0, 0) [(''<='', 1, 0, 1)]) = Inl TypeError"
proof -
  let ?p = "scalar_problem ''minimize'' (1, 0, 0) [(''<='', 1, 0, 1)]"
  have h1: "check_quadraticity ?p = Inr ()"
    by (simp add: check_quadraticity_def scalar_problem_def)
  have h2: "get_id_map (variables ?p) = ([0 \<mapsto> 0], 1)"
    by (simp add: get_id_map_def scalar_problem_def)
  have h3: "sdp_status (solver_infeasible (sdp_relaxation 1 ?p)) \<notin> {''optimal'', ''optimal_inaccurate''}"
    by (simp add: solver_infeasible_def)
  have v: "sdp_value (solver_infeasible (sdp_relaxation 1 ?p)) = Some PosInf"
    by (simp add: solver_infeasible_def)
  from relax_sdp_solver_failure [where solve = solver_infeasible, OF h1 h2 h3] h1 h2 h3
  show ?thesis unfolding v by blast
qed

subsection \<open>The consensus-ADMM heuristic\<close>

lemma fval_le_refl: "fval_le a a"
  by (cases a) simp_all

lemma fval_gt_real_le: "fval_gt_real a r \<Longrightarrow> fval_le (Val r) a"
  by (cases a) simp_all

lemma fval_gt_real_trans: "fval_gt_real a r \<Longrightarrow> r' < r \<Longrightarrow> fval_gt_real a r'"
  by (cases a) simp_all

lemma update_best_cases:
  "update_best eps maxviol objt za b = b \<or>
   (update_best eps maxviol objt za b = (Some za, Val objt) \<and> maxviol < eps \<and> fval_gt_real (snd b) objt)"
  by (simp add: update_best_def)

text \<open>A best-found state \<open>b'\<close> reached from \<open>b\<close>: unchanged, or a candidate within the feasibility
  tolerance whose objective value is recorded and lies strictly below the previous best.\<close>

lemma improved_trans:
  assumes "b1 = b \<or> (\<exists>za. b1 = (Some za, Val (quad_val P Q R za)) \<and> mv za < eps
              \<and> fval_gt_real (snd b) (quad_val P Q R za))"
    and "b2 = b1 \<or> (\<exists>za. b2 = (Some za, Val (quad_val P Q R za)) \<and> mv za < eps
              \<and> fval_gt_real (snd b1) (quad_val P Q R za))"
  shows "b2 = b \<or> (\<exists>za. b2 = (Some za, Val (quad_val P Q R za)) \<and> mv za < eps
              \<and> fval_gt_real (snd b) (quad_val P Q R za))"
  using assms by (auto dest: fval_gt_real_trans)

lemma admm_iters_inv:
  assumes "admm_iters eigh spsolve d zlhs k st (rho, b) = Some (rho', b')"
  shows "(rho' = rho \<or> rho' = rho * 2)
       \<and> (b' = b \<or> (\<exists>za. b' = (Some za, Val (quad_val (ad_P0 d) (ad_Q0 d) (ad_R0 d) za))
              \<and> max_violation d za < ad_eps d
              \<and> fval_gt_real (snd b) (quad_val (ad_P0 d) (ad_Q0 d) (ad_R0 d) za)))"
  using assms
proof (induction k arbitrary: st b)
  case 0
  then show ?case by simp
next
  case (Suc k)
  from Suc.prems obtain z xs' ys' za where
    step: "admm_step eigh spsolve d rho zlhs st = Some (z, xs', ys', za)"
    by (auto split: option.splits)
  let ?mv = "max_violation d za"
  let ?objt = "quad_val (ad_P0 d) (ad_Q0 d) (ad_R0 d) za"
  show ?case
  proof (cases "?mv > ad_viollim d")
    case True
    with Suc.prems step show ?thesis by (simp add: Let_def)
  next
    case False
    let ?b1 = "update_best (ad_eps d) ?mv ?objt za b"
    from Suc.prems step False have
      rec: "admm_iters eigh spsolve d zlhs k (xs', ys') (rho, ?b1) = Some (rho', b')"
      by (simp add: Let_def quad_val_def)
    from Suc.IH [OF rec] have r: "rho' = rho \<or> rho' = rho * 2"
      and i2: "b' = ?b1 \<or> (\<exists>za. b' = (Some za, Val (quad_val (ad_P0 d) (ad_Q0 d) (ad_R0 d) za))
              \<and> max_violation d za < ad_eps d
              \<and> fval_gt_real (snd ?b1) (quad_val (ad_P0 d) (ad_Q0 d) (ad_R0 d) za))"
      by auto
    have i1: "?b1 = b \<or> (\<exists>za. ?b1 = (Some za, Val (quad_val (ad_P0 d) (ad_Q0 d) (ad_R0 d) za))
              \<and> max_violation d za < ad_eps d
              \<and> fval_gt_real (snd b) (quad_val (ad_P0 d) (ad_Q0 d) (ad_R0 d) za))"
      using update_best_cases [of "ad_eps d" ?mv ?objt za b] by auto
    from improved_trans [where mv = "max_violation d", OF i1 i2] r show ?thesis by simp
  qed
qed

lemma admm_trial_inv:
  assumes "admm_trial eigh spsolve randn d sample (rho, b) = Some (rho', b')"
  shows "(rho' = rho \<or> rho' = rho * 2)
       \<and> (b' = b \<or> (\<exists>za. b' = (Some za, Val (quad_val (ad_P0 d) (ad_Q0 d) (ad_R0 d) za))
              \<and> max_violation d za < ad_eps d
              \<and> fval_gt_real (snd b) (quad_val (ad_P0 d) (ad_Q0 d) (ad_R0 d) za)))"
  using assms unfolding admm_trial_def by (simp add: Let_def) (rule admm_iters_inv)

lemma admm_trials_inv:
  assumes "admm_trials eigh spsolve randn d samples (rho, b) = Some (rho', b')"
  shows "(\<exists>j \<le> length samples. rho' = rho * 2 ^ j)
       \<and> (b' = b \<or> (\<exists>za. b' = (Some za, Val (quad_val (ad_P0 d) (ad_Q0 d) (ad_R0 d) za))
              \<and> max_violation d za < ad_eps d
              \<and> fval_gt_real (snd b) (quad_val (ad_P0 d) (ad_Q0 d) (ad_R0 d) za)))"
  using assms
proof (induction samples arbitrary: rho b)
  case Nil
  then show ?case by simp
next
  case (Cons s samples)
  from Cons.prems obtain rho1 b1 where
    t: "admm_trial eigh spsolve randn d s (rho, b) = Some (rho1, b1)"
    and rest: "admm_trials eigh spsolve randn d samples (rho1, b1) = Some (rho', b')"
    by (auto split: option.splits)
  from admm_trial_inv [OF t] have r1: "rho1 = rho \<or> rho1 = rho * 2"
    and i1: "b1 = b \<or> (\<exists>za. b1 = (Some za, Val (quad_val (ad_P0 d) (ad_Q0 d) (ad_R0 d) za))
              \<and> max_violation d za < ad_eps d
              \<and> fval_gt_real (snd b) (quad_val (ad_P0 d) (ad_Q0 d) (ad_R0 d) za))"
    by auto
  from Cons.IH [OF rest] obtain j where j: "j \<le> length samples" "rho' = rho1 * 2 ^ j"
    and i2: "b' = b1 \<or> (\<exists>za. b' = (Some za, Val (quad_val (ad_P0 d) (ad_Q0 d) (ad_R0 d) za))
              \<and> max_violation d za < ad_eps d
              \<and> fval_gt_real (snd b1) (quad_val (ad_P0 d) (ad_Q0 d) (ad_R0 d) za))"
    by auto
  have "\<exists>j' \<le> length (s # samples). rho' = rho * 2 ^ j'"
  proof (cases "rho1 = rho")
    case True
    with j show ?thesis by (intro exI [of _ j]) simp
  next
    case False
    with r1 have "rho1 = rho * 2" by simp
    with j show ?thesis by (intro exI [of _ "Suc j"]) simp
  qed
  with improved_trans [where mv = "max_violation d", OF i1 i2] show ?case by simp
qed

lemma admm_trials_append:
  "admm_trials eigh spsolve randn d (ss @ ts) g =
     (case admm_trials eigh spsolve randn d ss g of
        None \<Rightarrow> None | Some g' \<Rightarrow> admm_trials eigh spsolve randn d ts g')"
  by (induction ss arbitrary: g) (auto split: option.splits)

subsection \<open>Runs on problems in one scalar variable\<close>

lemma quad_form_1x1: "quad_form (sp_1x1 a) [x] = a * x * x"
  by (simp add: quad_form_def sp_1x1_def)

lemma dot_1: "dot [x] [y] = x * y"
  by (simp add: dot_def)

lemma eigh_1x1_dense: "eigh_1x1 (todense (sp_1x1 a)) = ([a], [[1]])"
  by (simp add: eigh_1x1_def todense_def sp_1x1_def sp_elem_def)

lemma matT_vec_1: "matT_vec [[1]] [x] = [x]"
  by (simp add: matT_vec_def dot_def)

lemma mat_vec_1: "mat_vec [[1]] [x] = [x]"
  by (simp add: mat_vec_def dot_def)

lemma phi_1: "phi [l] [zh] [bh] c nu =
   l * ((- ((nu * bh - 2 * zh) / (2 * (1 + nu * l)))) * (- ((nu * bh - 2 * zh) / (2 * (1 + nu * l)))))
   + bh * (- ((nu * bh - 2 * zh) / (2 * (1 + nu * l)))) + c"
  by (simp add: phi_def xhat_of_def dot_def power2_eq_square)

lemma xhat_of_1: "xhat_of [l] [zh] [bh] nu = [- ((nu * bh - 2 * zh) / (2 * (1 + nu * l)))]"
  by (simp add: xhat_of_def)

lemma one_qcqp_1x1_pos:
  assumes "l > 0" and "eq \<or> l * z * z + z * b + c > 0"
  shows "one_qcqp eigh_1x1 [z] (sp_1x1 l) [b] c eq tol =
     (case grow_e (phi [l] [z] [b] c) 1 of None \<Rightarrow> None
      | Some e \<Rightarrow> (case bisect (phi [l] [z] [b] c) tol (- 1 / l) e of None \<Rightarrow> None
          | Some (s', e') \<Rightarrow> Some [- (((s' + e') / 2 * b - 2 * z) / (2 * (1 + (s' + e') / 2 * l)))]))"
  using assms
  by (auto simp add: one_qcqp_def quad_form_1x1 dot_1 eigh_1x1_dense matT_vec_1 mat_vec_1 xhat_of_1
      Let_def split: option.splits)

lemma qcqp_half:
  "one_qcqp eigh_1x1 [1 / 2] (sp_1x1 1) [0] (- 1) True (1 / 10 ^ 6) = Some [1]"
proof -
  have g: "grow_e (phi [1] [1 / 2] [0] (- 1)) 1 = Some 1"
    by (subst grow_e.simps) (simp add: phi_1)
  have b1: "bisect (phi [1] [1 / 2] [0] (- 1)) (1 / 10 ^ 6) (- 1) 1 = Some (- 1 / 2, - 1 / 2)"
    by (simp add: bisect.simps phi_1 Let_def)
  show ?thesis
    using g b1 by (subst one_qcqp_1x1_pos) simp_all
qed

lemma qcqp_zero:
  "one_qcqp eigh_1x1 [0] (sp_1x1 1) [0] (- 1) True (1 / 10 ^ 6) = Some [0]"
proof -
  have g: "grow_e (phi [1] [0] [0] (- 1)) 1 = Some 1"
    by (subst grow_e.simps) (simp add: phi_1)
  have ph: "phi [1] [0] [0] (- 1) = (\<lambda>nu. - 1)"
    by (rule ext) (simp add: phi_1)
  have b1: "bisect (phi [1] [0] [0] (- 1)) (1 / 10 ^ 6) (- 1) 1 = Some (- 1, - 1 + 1 / 2 ^ 20)"
    unfolding ph by (simp add: bisect.simps Let_def)
  show ?thesis
    using g b1 by (subst one_qcqp_1x1_pos) simp_all
qed

lemma sp_neg_1x1: "sp_neg (sp_1x1 a) = sp_1x1 (- a)"
  by (simp add: sp_neg_def sp_1x1_def)

lemma admm_data_scalar:
  "admm_data_of (scalar_problem sense (a, b, c) [(op, l, q, r)]) num_iters viollim eps =
     \<lparr>ad_N = 1,
      ad_P0 = (if sense = ''maximize'' then sp_1x1 (- a) else sp_1x1 a),
      ad_Q0 = (if sense = ''maximize'' then [- b] else [b]),
      ad_R0 = (if sense = ''maximize'' then - c else c),
      ad_PP = [sp_1x1 l], ad_QQ = [[q]], ad_RR = [r], ad_rel = [op = ''==''],
      ad_num_iters = num_iters, ad_viollim = viollim, ad_eps = eps\<rparr>"
  by (simp add: admm_data_of_def scalar_problem_def scalar_term_def get_id_map_def
      objective_terms_def constraint_terms_def sp_neg_1x1 smul_def Let_def)

lemma check_scalar: "check_quadraticity (scalar_problem sense obj cons) = Inr ()"
  by (simp add: check_quadraticity_def scalar_problem_def list_all_iff case_prod_beta)

lemma zlhs_scalar:
  "sp_elem (sp_add (sp_scale 2 (sp_1x1 a)) (sp_scale c (sp_identity (Suc 0)))) 0 0 = 2 * a + c"
  by (simp add: sp_elem_def sp_add_def sp_scale_def sp_1x1_def sp_identity_def)

lemma admm_step_scalar:
  assumes "ad_N d = 1" "ad_PP d = [A]" "ad_QQ d = [[q]]" "ad_RR d = [r]" "ad_rel d = [eq]"
    and "ad_Q0 d = [q0]" and "sp_elem zlhs 0 0 = a"
    and "one_qcqp eigh_1x1 [(rho * x0 - y - q0) / a + 1 / rho * y] A [q] r eq default_tol = Some [x]"
  shows "admm_step eigh_1x1 spsolve_1x1 d rho zlhs ([[x0]], [[y]]) =
     Some ([(rho * x0 - y - q0) / a], [[x]], [[y + rho * ((rho * x0 - y - q0) / a - x)]],
           [(x + (rho * x0 - y - q0) / a) / 2])"
  using assms
  by (simp add: admm_step_def sum_cols_def vadd_def vsub_def smul_def vdiv_def zeros_def
      spsolve_1x1_def Let_def)

lemma max_violation_scalar:
  assumes "ad_PP d = [sp_1x1 l]" "ad_QQ d = [[q]]" "ad_RR d = [r]" "ad_rel d = [eq]"
  shows "max_violation d [za] =
     max 0 (if eq then \<bar>l * za * za + za * q + r\<bar> else max 0 (l * za * za + za * q + r))"
  using assms by (simp add: max_violation_def violation_def quad_form_1x1 dot_1 Let_def)

lemma admm_iters_Suc:
  assumes "admm_step eigh spsolve d rho zlhs st = Some (z, xs', ys', za)"
  shows "admm_iters eigh spsolve d zlhs (Suc k) st (rho, b) =
     (if max_violation d za > ad_viollim d then Some (rho * 2, b)
      else admm_iters eigh spsolve d zlhs k (xs', ys')
             (rho, update_best (ad_eps d) (max_violation d za)
                     (quad_val (ad_P0 d) (ad_Q0 d) (ad_R0 d) za) za b))"
  using assms by (simp add: Let_def quad_val_def)

lemma admm_run_scalar:
  "admm_run eigh_1x1 spsolve_1x1 randn (scalar_problem sense (a, b, c) [(op, l, q, r)])
       num_samples num_iters viollim eps =
     (case admm_trials eigh_1x1 spsolve_1x1 randn
             (admm_data_of (scalar_problem sense (a, b, c) [(op, l, q, r)]) num_iters viollim eps)
             [0..<num_samples]
             ((if (if sense = ''maximize'' then - a else a) < 0
               then 2 * (1 - (if sense = ''maximize'' then - a else a)) * 5 else 5), None, PosInf) of
        None \<Rightarrow> None | Some g \<Rightarrow> Some (Inr g))"
  by (simp add: admm_run_def check_scalar Let_def admm_data_scalar eigh_1x1_dense np_min_def
      initial_rho_def split: option.splits)

lemma local_updates_spec:
  assumes "distinct idx" and "\<forall>i \<in> set idx. i < length xs \<and> i < length ys"
    and "local_updates eigh d rho z idx (xs, ys) = Some (xs', ys')"
  shows "length xs' = length xs \<and> length ys' = length ys
       \<and> (\<forall>i \<in> set idx.
             one_qcqp eigh (vadd z (smul (1 / rho) (ys ! i))) (ad_PP d ! i) (ad_QQ d ! i)
               (ad_RR d ! i) (ad_rel d ! i) default_tol = Some (xs' ! i)
           \<and> ys' ! i = vadd (ys ! i) (smul rho (vsub z (xs' ! i))))
       \<and> (\<forall>j. j \<notin> set idx \<longrightarrow> xs' ! j = xs ! j \<and> ys' ! j = ys ! j)"
  using assms
proof (induction idx arbitrary: xs ys)
  case Nil
  then show ?case by simp
next
  case (Cons i idx)
  let ?zz = "vadd z (smul (1 / rho) (ys ! i))"
  from Cons.prems(3) obtain x where
    q: "one_qcqp eigh ?zz (ad_PP d ! i) (ad_QQ d ! i) (ad_RR d ! i) (ad_rel d ! i) default_tol = Some x"
    and rec: "local_updates eigh d rho z idx
                (xs[i := x], ys[i := vadd (ys ! i) (smul rho (vsub z x))]) = Some (xs', ys')"
    by (auto simp: Let_def split: option.splits)
  let ?xs1 = "xs[i := x]" and ?ys1 = "ys[i := vadd (ys ! i) (smul rho (vsub z x))]"
  from Cons.prems have d: "distinct idx" and ni: "i \<notin> set idx"
    and ilen: "i < length xs" "i < length ys"
    and b: "\<forall>j \<in> set idx. j < length ?xs1 \<and> j < length ?ys1" by auto
  from Cons.IH [OF d b rec] have
    len: "length xs' = length xs" "length ys' = length ys"
    and each: "\<forall>j \<in> set idx.
             one_qcqp eigh (vadd z (smul (1 / rho) (?ys1 ! j))) (ad_PP d ! j) (ad_QQ d ! j)
               (ad_RR d ! j) (ad_rel d ! j) default_tol = Some (xs' ! j)
           \<and> ys' ! j = vadd (?ys1 ! j) (smul rho (vsub z (xs' ! j)))"
    and other: "\<forall>j. j \<notin> set idx \<longrightarrow> xs' ! j = ?xs1 ! j \<and> ys' ! j = ?ys1 ! j"
    by auto
  from other ni ilen have at_i: "xs' ! i = x" "ys' ! i = vadd (ys ! i) (smul rho (vsub z x))"
    by auto
  have each': "one_qcqp eigh (vadd z (smul (1 / rho) (ys ! j))) (ad_PP d ! j) (ad_QQ d ! j)
               (ad_RR d ! j) (ad_rel d ! j) default_tol = Some (xs' ! j)
           \<and> ys' ! j = vadd (ys ! j) (smul rho (vsub z (xs' ! j)))" if "j \<in> set (i # idx)" for j
  proof (cases "j = i")
    case True
    with q at_i show ?thesis by simp
  next
    case False
    with that have j: "j \<in> set idx" by simp
    from False have "?ys1 ! j = ys ! j" by simp
    with each j show ?thesis by auto
  qed
  have other': "xs' ! j = xs ! j \<and> ys' ! j = ys ! j" if "j \<notin> set (i # idx)" for j
    using that other by auto
  from len each' other' show ?case by blast
qed

lemma quad_form_neg: "quad_form (sp_neg A) x = - quad_form A x"
proof -
  have "(\<Sum>(i, j, v)\<leftarrow>map (\<lambda>(i, j, v). (i, j, - v)) es. v * x ! i * x ! j) =
        - (\<Sum>(i, j, v)\<leftarrow>es. v * x ! i * x ! j)" for es :: "(nat \<times> nat \<times> real) list"
    by (induction es) auto
  from this [of "sp_entries A"] show ?thesis by (simp add: quad_form_def sp_neg_def)
qed

lemma dot_smul_right: "dot x (smul c y) = c * dot x y"
proof (induction x arbitrary: y)
  case Nil
  then show ?case by (simp add: dot_def)
next
  case (Cons a x)
  from Cons [of "tl y"] show ?case
    by (cases y) (simp_all add: dot_def smul_def algebra_simps)
qed

lemma quad_val_negated:
  "quad_val (sp_neg P) (smul (- 1) Q) (- R) x = - quad_val P Q R x"
  by (simp add: quad_val_def quad_form_neg dot_smul_right)

lemma admm_data_fields:
  "ad_num_iters (admm_data_of self num_iters viollim eps) = num_iters"
  "ad_viollim (admm_data_of self num_iters viollim eps) = viollim"
  "ad_eps (admm_data_of self num_iters viollim eps) = eps"
  "ad_N (admm_data_of self num_iters viollim eps) = snd (get_id_map (variables self))"
  by (simp_all add: admm_data_of_def Let_def case_prod_beta)

lemma admm_data_objective:
  "(ad_P0 (admm_data_of self num_iters viollim eps),
    ad_Q0 (admm_data_of self num_iters viollim eps),
    ad_R0 (admm_data_of self num_iters viollim eps)) = objective_terms self"
  by (simp add: admm_data_of_def Let_def case_prod_beta)

lemma objective_terms_maximize:
  assumes "objective_NAME self = ''maximize''"
  shows "objective_terms self =
     (sp_neg (qt_P (objective_coeffs self)), smul (- 1) (qt_Q (objective_coeffs self)),
      - qt_R (objective_coeffs self))"
  using assms by (simp add: objective_terms_def Let_def)

text \<open>The run, once the checks before the first trial have passed.\<close>

lemma admm_run_Inr:
  assumes "admm_run eigh spsolve randn self num_samples num_iters viollim eps = Some (Inr g)"
  shows "\<exists>lmb_min rho0.
           check_quadraticity self = Inr ()
         \<and> np_min (fst (eigh (todense (ad_P0 (admm_data_of self num_iters viollim eps))))) = Inr lmb_min
         \<and> initial_rho lmb_min (length (ad_PP (admm_data_of self num_iters viollim eps))) = Inr rho0
         \<and> admm_trials eigh spsolve randn (admm_data_of self num_iters viollim eps)
              [0..<num_samples] (rho0, None, PosInf) = Some g"
  using assms
  by (auto simp: admm_run_def Let_def case_prod_beta split: sum.splits option.splits)

lemma admm_run_eq:
  assumes "check_quadraticity self = Inr ()"
    and "np_min (fst (eigh (todense (ad_P0 (admm_data_of self num_iters viollim eps))))) = Inr lmb_min"
    and "initial_rho lmb_min (length (ad_PP (admm_data_of self num_iters viollim eps))) = Inr rho0"
  shows "admm_run eigh spsolve randn self num_samples num_iters viollim eps =
     (case admm_trials eigh spsolve randn (admm_data_of self num_iters viollim eps)
             [0..<num_samples] (rho0, None, PosInf) of
        None \<Rightarrow> None | Some g \<Rightarrow> Some (Inr g))"
  using assms by (simp add: admm_run_def Let_def case_prod_beta)

text \<open>
  C6. The best-found state starts as \<open>(None, +inf)\<close>: it is the state of a run without trials.
  Between the end of trial \<open>n\<close> and the end of any later trial \<open>n + k\<close> of the same run the
  state is either unchanged or a candidate \<open>za\<close> whose maximum violation is below the
  feasibility tolerance \<open>eps\<close>, recorded with its objective value, which lies strictly below
  the earlier best; in both cases \<open>bestf\<close> has not increased.
\<close>

theorem best_found_monotone:
  assumes run: "admm_run eigh spsolve randn self (n + k) num_iters viollim eps = Some (Inr (rho', b'))"
  shows "\<exists>rho b.
           admm_run eigh spsolve randn self n num_iters viollim eps = Some (Inr (rho, b))
         \<and> (n = 0 \<longrightarrow> b = (None, PosInf))
         \<and> fval_le (snd b') (snd b)
         \<and> (b' = b \<or>
             (\<exists>za. b' = (Some za, Val (quad_val (ad_P0 (admm_data_of self num_iters viollim eps))
                                        (ad_Q0 (admm_data_of self num_iters viollim eps))
                                        (ad_R0 (admm_data_of self num_iters viollim eps)) za))
                \<and> max_violation (admm_data_of self num_iters viollim eps) za < eps
                \<and> fval_gt_real (snd b)
                     (quad_val (ad_P0 (admm_data_of self num_iters viollim eps))
                        (ad_Q0 (admm_data_of self num_iters viollim eps))
                        (ad_R0 (admm_data_of self num_iters viollim eps)) za)))"
proof -
  let ?d = "admm_data_of self num_iters viollim eps"
  from admm_run_Inr [OF run] obtain lmb_min rho0 where
    cj: "check_quadraticity self = Inr ()
       \<and> np_min (fst (eigh (todense (ad_P0 ?d)))) = Inr lmb_min
       \<and> initial_rho lmb_min (length (ad_PP ?d)) = Inr rho0
       \<and> admm_trials eigh spsolve randn ?d [0..<n + k] (rho0, None, PosInf) = Some (rho', b')"
    by (elim exE) (rule that)
  note c = cj [THEN conjunct1] and l = cj [THEN conjunct2, THEN conjunct1]
    and r = cj [THEN conjunct2, THEN conjunct2, THEN conjunct1]
    and t = cj [THEN conjunct2, THEN conjunct2, THEN conjunct2]
  have split: "[0..<n + k] = [0..<n] @ [n..<n + k]" by (rule upt_add_eq_append) simp
  from t have "(case admm_trials eigh spsolve randn ?d [0..<n] (rho0, None, PosInf) of
        None \<Rightarrow> None | Some g' \<Rightarrow> admm_trials eigh spsolve randn ?d [n..<n + k] g') = Some (rho', b')"
    by (simp only: split admm_trials_append)
  then obtain g where
    t1: "admm_trials eigh spsolve randn ?d [0..<n] (rho0, None, PosInf) = Some g"
    and t2: "admm_trials eigh spsolve randn ?d [n..<n + k] g = Some (rho', b')"
    by (cases "admm_trials eigh spsolve randn ?d [0..<n] (rho0, None, PosInf)") simp_all
  obtain rho b where g: "g = (rho, b)" by (cases g) auto
  have run_n: "admm_run eigh spsolve randn self n num_iters viollim eps = Some (Inr (rho, b))"
    using admm_run_eq [where eigh = eigh and spsolve = spsolve and randn = randn and num_samples = n, OF c l r] t1 g by simp
  have init: "n = 0 \<longrightarrow> b = (None, PosInf)"
  proof
    assume "n = 0"
    with t1 g show "b = (None, PosInf)" by simp
  qed
  from admm_trials_inv [OF t2 [unfolded g]] have
    imp: "b' = b \<or> (\<exists>za. b' = (Some za, Val (quad_val (ad_P0 ?d) (ad_Q0 ?d) (ad_R0 ?d) za))
              \<and> max_violation ?d za < ad_eps ?d
              \<and> fval_gt_real (snd b) (quad_val (ad_P0 ?d) (ad_Q0 ?d) (ad_R0 ?d) za))"
    by blast
  have le: "fval_le (snd b') (snd b)"
  proof (cases "b' = b")
    case True
    then show ?thesis by (simp add: fval_le_refl)
  next
    case False
    with imp obtain za where "b' = (Some za, Val (quad_val (ad_P0 ?d) (ad_Q0 ?d) (ad_R0 ?d) za))"
      "fval_gt_real (snd b) (quad_val (ad_P0 ?d) (ad_Q0 ?d) (ad_R0 ?d) za)" by blast
    then show ?thesis by (simp add: fval_gt_real_le)
  qed
  from imp have imp': "b' = b \<or> (\<exists>za. b' = (Some za, Val (quad_val (ad_P0 ?d) (ad_Q0 ?d) (ad_R0 ?d) za))
              \<and> max_violation ?d za < eps
              \<and> fval_gt_real (snd b) (quad_val (ad_P0 ?d) (ad_Q0 ?d) (ad_R0 ?d) za))"
    by (simp only: admm_data_fields)
  from run_n init le imp' show ?thesis by blast
qed

lemma upt_1: "[0..<1] = [0]" by simp

lemma upt_2: "[0..<2] = [0, 1]" by (simp add: upt_conv_Cons)

lemma trial_scalar:
  assumes M: "length (ad_PP d) = 1" and N: "ad_N d = 1" and P0: "ad_P0 d = sp_1x1 a"
    and ni: "ad_num_iters d = ni"
  shows "admm_trial eigh spsolve randn d sample (rho, b) =
     admm_iters eigh spsolve d (sp_add (sp_scale 2 (sp_1x1 a)) (sp_scale rho (sp_identity 1))) ni
       ([randn sample], [[0]]) (rho, b)"
  using assms by (simp add: admm_trial_def Let_def zeros_def)

lemma data_max:
  "admm_data_of problem_max ni vl ep =
     \<lparr>ad_N = 1, ad_P0 = sp_1x1 1, ad_Q0 = [0], ad_R0 = - 1,
      ad_PP = [sp_1x1 1], ad_QQ = [[0]], ad_RR = [- 4], ad_rel = [False],
      ad_num_iters = ni, ad_viollim = vl, ad_eps = ep\<rparr>"
  by (simp add: problem_max_def admm_data_scalar)

lemma step_max:
  "admm_step eigh_1x1 spsolve_1x1 (admm_data_of problem_max ni vl ep) 5
     (sp_add (sp_scale 2 (sp_1x1 1)) (sp_scale 5 (sp_identity 1))) ([[1]], [[0]])
   = Some ([5 / 7], [[5 / 7]], [[0]], [5 / 7])"
proof -
  have q: "one_qcqp eigh_1x1 [(5 * 1 - 0 - 0) / 7 + 1 / 5 * 0] (sp_1x1 1) [0] (- 4) False default_tol
             = Some [5 / 7]"
    by (simp add: one_qcqp_def quad_form_1x1 dot_1)
  have "admm_step eigh_1x1 spsolve_1x1 (admm_data_of problem_max ni vl ep) 5
     (sp_add (sp_scale 2 (sp_1x1 1)) (sp_scale 5 (sp_identity 1))) ([[1]], [[0]])
   = Some ([(5 * 1 - 0 - 0) / 7], [[5 / 7]], [[0 + 5 * ((5 * 1 - 0 - 0) / 7 - 5 / 7)]],
           [(5 / 7 + (5 * 1 - 0 - 0) / 7) / 2])"
    by (rule admm_step_scalar [OF _ _ _ _ _ _ _ q]) (simp_all add: data_max zlhs_scalar)
  then show ?thesis by simp
qed

lemma run_max:
  "admm_run eigh_1x1 spsolve_1x1 (\<lambda>sample. [1]) problem_max 1 1 (10 ^ 10) (1 / 10 ^ 3)
   = Some (Inr (5, Some [5 / 7], Val (- (24 / 49))))"
proof -
  let ?d = "admm_data_of problem_max 1 (10 ^ 10) (1 / 10 ^ 3)"
  have mv: "max_violation ?d [5 / 7] = 0"
    by (subst max_violation_scalar [where l = 1 and q = 0 and r = "- 4" and eq = False])
       (simp_all add: data_max)
  have ob: "quad_val (ad_P0 ?d) (ad_Q0 ?d) (ad_R0 ?d) [5 / 7] = - (24 / 49)"
    by (simp add: data_max quad_val_def quad_form_1x1 dot_1)
  have it: "admm_iters eigh_1x1 spsolve_1x1 ?d
       (sp_add (sp_scale 2 (sp_1x1 1)) (sp_scale 5 (sp_identity 1))) (Suc 0) ([[1]], [[0]]) (5, None, PosInf)
     = Some (5, Some [5 / 7], Val (- (24 / 49)))"
    by (subst admm_iters_Suc [OF step_max])
       (simp only: mv ob admm_data_fields, simp add: update_best_def)
  have tr: "admm_trial eigh_1x1 spsolve_1x1 (\<lambda>sample. [1]) ?d 0 (5, None, PosInf)
     = Some (5, Some [5 / 7], Val (- (24 / 49)))"
  proof -
    have "admm_trial eigh_1x1 spsolve_1x1 (\<lambda>sample. [1]) ?d 0 (5, None, PosInf) =
        admm_iters eigh_1x1 spsolve_1x1 ?d
          (sp_add (sp_scale 2 (sp_1x1 1)) (sp_scale 5 (sp_identity 1))) (Suc 0) ([[1]], [[0]])
          (5, None, PosInf)"
      by (rule trial_scalar) (simp_all add: data_max)
    then show ?thesis by (simp only: it)
  qed
  show ?thesis
    using tr unfolding problem_max_def by (simp add: admm_run_scalar)
qed

lemma admm_run_best:
  assumes run: "admm_run eigh spsolve randn self num_samples num_iters viollim eps = Some (Inr (rho, b))"
  shows "b = (None, PosInf) \<or>
     (\<exists>za. b = (Some za, Val (quad_val (ad_P0 (admm_data_of self num_iters viollim eps))
                                (ad_Q0 (admm_data_of self num_iters viollim eps))
                                (ad_R0 (admm_data_of self num_iters viollim eps)) za))
          \<and> max_violation (admm_data_of self num_iters viollim eps) za < eps)"
proof -
  let ?d = "admm_data_of self num_iters viollim eps"
  from admm_run_Inr [OF run] obtain lmb_min rho0 where
    cj: "check_quadraticity self = Inr ()
       \<and> np_min (fst (eigh (todense (ad_P0 ?d)))) = Inr lmb_min
       \<and> initial_rho lmb_min (length (ad_PP ?d)) = Inr rho0
       \<and> admm_trials eigh spsolve randn ?d [0..<num_samples] (rho0, None, PosInf) = Some (rho, b)"
    by (elim exE) (rule that)
  note t = cj [THEN conjunct2, THEN conjunct2, THEN conjunct2]
  from admm_trials_inv [OF t] have
    "b = (None, PosInf) \<or> (\<exists>za. b = (Some za, Val (quad_val (ad_P0 ?d) (ad_Q0 ?d) (ad_R0 ?d) za))
              \<and> max_violation ?d za < ad_eps ?d
              \<and> fval_gt_real (snd (None :: vec option, PosInf)) (quad_val (ad_P0 ?d) (ad_Q0 ?d) (ad_R0 ?d) za))"
    by (rule conjunct2)
  then show ?thesis by (simp only: admm_data_fields) blast
qed

lemma noncvx_admm_Inr:
  assumes "noncvx_admm eigh spsolve randn self num_samples num_iters viollim eps = Some (Inr (f, vars'))"
  shows "\<exists>rho bestx. admm_run eigh spsolve randn self num_samples num_iters viollim eps
                        = Some (Inr (rho, bestx, f))
                    \<and> assign_vars (variables self) bestx = Inr vars'"
  using assms by (auto simp: noncvx_admm_def split: option.splits sum.splits)

text \<open>
  C1. For a problem whose objective is a maximisation, whenever \<open>noncvx_admm\<close> returns a
  finite value \<open>f\<close> it has assigned a point \<open>x\<close> to the variables, and \<open>f\<close> is the negated value of
  the caller's objective at \<open>x\<close>: \<open>f = - (x.T*P*x + Q.T*x + R)\<close>. The signs of \<open>P\<close>, \<open>Q\<close>, \<open>R\<close> are
  turned before the optimisation, and \<open>bestf\<close> is returned without turning it back.
\<close>

theorem noncvx_admm_maximize_value:
  assumes mx: "objective_NAME self = ''maximize''"
    and ret: "noncvx_admm eigh spsolve randn self num_samples num_iters viollim eps
                = Some (Inr (Val f, vars'))"
  shows "\<exists>rho x. admm_run eigh spsolve randn self num_samples num_iters viollim eps
                   = Some (Inr (rho, Some x, Val f))
     \<and> assign_vars (variables self) (Some x) = Inr vars'
     \<and> f = - quad_val (qt_P (objective_coeffs self)) (qt_Q (objective_coeffs self))
                (qt_R (objective_coeffs self)) x"
proof -
  let ?d = "admm_data_of self num_iters viollim eps"
  from noncvx_admm_Inr [OF ret] obtain rho bestx where
    run: "admm_run eigh spsolve randn self num_samples num_iters viollim eps
            = Some (Inr (rho, bestx, Val f))"
    and asg: "assign_vars (variables self) bestx = Inr vars'" by blast
  from admm_run_best [OF run] obtain za where
    b: "(bestx, Val f) = (Some za, Val (quad_val (ad_P0 ?d) (ad_Q0 ?d) (ad_R0 ?d) za))"
    by auto
  have "(ad_P0 ?d, ad_Q0 ?d, ad_R0 ?d) =
     (sp_neg (qt_P (objective_coeffs self)), smul (- 1) (qt_Q (objective_coeffs self)),
      - qt_R (objective_coeffs self))"
    by (simp only: admm_data_objective objective_terms_maximize [OF mx])
  then have "quad_val (ad_P0 ?d) (ad_Q0 ?d) (ad_R0 ?d) za =
     - quad_val (qt_P (objective_coeffs self)) (qt_Q (objective_coeffs self))
         (qt_R (objective_coeffs self)) za"
    by (simp add: quad_val_negated)
  with b run asg show ?thesis by auto
qed

lemma assign_vars_None: "xs \<noteq> [] \<Longrightarrow> assign_vars xs None = Inl TypeError"
  by (cases xs) (simp_all add: assign_vars_def)

text \<open>
  C3. When the trials end with the best-found state empty (\<open>bestx\<close> is \<open>None\<close>), \<open>bestf\<close> is
  \<open>+inf\<close>, and for a problem with at least one variable \<open>assign_vars\<close> subscripts \<open>None\<close>:
  \<open>noncvx_admm\<close> raises a \<open>TypeError\<close> and returns nothing.
\<close>

theorem noncvx_admm_no_feasible_point:
  assumes run: "admm_run eigh spsolve randn self num_samples num_iters viollim eps
                  = Some (Inr (rho, None, bestf))"
    and vars: "variables self \<noteq> []"
  shows "bestf = PosInf
       \<and> noncvx_admm eigh spsolve randn self num_samples num_iters viollim eps = Some (Inl TypeError)"
proof -
  from admm_run_best [OF run] have "bestf = PosInf" by auto
  moreover have "noncvx_admm eigh spsolve randn self num_samples num_iters viollim eps
                   = Some (Inl TypeError)"
    using run assign_vars_None [OF vars] by (simp add: noncvx_admm_def)
  ultimately show ?thesis by simp
qed

lemma data_eq:
  "admm_data_of problem_eq ni vl ep =
     \<lparr>ad_N = 1, ad_P0 = sp_1x1 0, ad_Q0 = [0], ad_R0 = 0,
      ad_PP = [sp_1x1 1], ad_QQ = [[0]], ad_RR = [- 1], ad_rel = [True],
      ad_num_iters = ni, ad_viollim = vl, ad_eps = ep\<rparr>"
  by (simp add: problem_eq_def admm_data_scalar)

lemma step_eq:
  assumes "rho > 0"
  shows "admm_step eigh_1x1 spsolve_1x1 (admm_data_of problem_eq ni vl ep) rho
     (sp_add (sp_scale 2 (sp_1x1 0)) (sp_scale rho (sp_identity 1))) ([[1 / 2]], [[0]])
   = Some ([1 / 2], [[1]], [[- (rho / 2)]], [3 / 4])"
proof -
  have q: "one_qcqp eigh_1x1 [(rho * (1 / 2) - 0 - 0) / rho + 1 / rho * 0] (sp_1x1 1) [0] (- 1) True default_tol
             = Some [1]"
    using assms qcqp_half by (simp add: default_tol_def)
  have "admm_step eigh_1x1 spsolve_1x1 (admm_data_of problem_eq ni vl ep) rho
     (sp_add (sp_scale 2 (sp_1x1 0)) (sp_scale rho (sp_identity 1))) ([[1 / 2]], [[0]])
   = Some ([(rho * (1 / 2) - 0 - 0) / rho], [[1]], [[0 + rho * ((rho * (1 / 2) - 0 - 0) / rho - 1)]],
           [(1 + (rho * (1 / 2) - 0 - 0) / rho) / 2])"
    by (rule admm_step_scalar [OF _ _ _ _ _ _ _ q]) (simp_all add: data_eq zlhs_scalar)
  then show ?thesis using assms by (simp add: algebra_simps)
qed

lemma mv_eq: "max_violation (admm_data_of problem_eq ni vl ep) [3 / 4] = 7 / 16"
  by (subst max_violation_scalar [where l = 1 and q = 0 and r = "- 1" and eq = True])
     (simp_all add: data_eq)

lemma ob_eq:
  "quad_val (ad_P0 (admm_data_of problem_eq ni vl ep)) (ad_Q0 (admm_data_of problem_eq ni vl ep))
     (ad_R0 (admm_data_of problem_eq ni vl ep)) [3 / 4] = 0"
  by (simp add: data_eq quad_val_def quad_form_1x1 dot_1)

lemma trial_eq_diverge:
  assumes "rho > 0" and "vl < 7 / 16"
  shows "admm_trial eigh_1x1 spsolve_1x1 (\<lambda>sample. [1 / 2]) (admm_data_of problem_eq (Suc k) vl ep)
           sample (rho, b) = Some (rho * 2, b)"
proof -
  let ?d = "admm_data_of problem_eq (Suc k) vl ep"
  let ?zlhs = "sp_add (sp_scale 2 (sp_1x1 0)) (sp_scale rho (sp_identity 1))"
  have "admm_trial eigh_1x1 spsolve_1x1 (\<lambda>sample. [1 / 2]) ?d sample (rho, b) =
        admm_iters eigh_1x1 spsolve_1x1 ?d ?zlhs (Suc k) ([[1 / 2]], [[0]]) (rho, b)"
    by (rule trial_scalar) (simp_all add: data_eq)
  also have "\<dots> = Some (rho * 2, b)"
    using assms(2)
    by (subst admm_iters_Suc [OF step_eq [OF assms(1)]]) (simp only: mv_eq admm_data_fields, simp)
  finally show ?thesis .
qed

lemma trial_eq_no_update:
  assumes "rho > 0" and "7 / 16 \<le> vl" and "ep \<le> 7 / 16"
  shows "admm_trial eigh_1x1 spsolve_1x1 (\<lambda>sample. [1 / 2]) (admm_data_of problem_eq (Suc 0) vl ep)
           sample (rho, b) = Some (rho, b)"
proof -
  let ?d = "admm_data_of problem_eq (Suc 0) vl ep"
  let ?zlhs = "sp_add (sp_scale 2 (sp_1x1 0)) (sp_scale rho (sp_identity 1))"
  have "admm_trial eigh_1x1 spsolve_1x1 (\<lambda>sample. [1 / 2]) ?d sample (rho, b) =
        admm_iters eigh_1x1 spsolve_1x1 ?d ?zlhs (Suc 0) ([[1 / 2]], [[0]]) (rho, b)"
    by (rule trial_scalar) (simp_all add: data_eq)
  also have "\<dots> = Some (rho, b)"
    using assms(2,3)
    by (subst admm_iters_Suc [OF step_eq [OF assms(1)]])
       (simp only: mv_eq ob_eq admm_data_fields, simp add: update_best_def)
  finally show ?thesis .
qed

lemma run_eq:
  "admm_run eigh_1x1 spsolve_1x1 (\<lambda>sample. [1 / 2]) problem_eq 1 1 (10 ^ 10) (1 / 10 ^ 3)
   = Some (Inr (5, None, PosInf))"
proof -
  have "admm_trial eigh_1x1 spsolve_1x1 (\<lambda>sample. [1 / 2])
          (admm_data_of problem_eq (Suc 0) (10 ^ 10) (1 / 10 ^ 3)) 0 (5, None, PosInf)
        = Some (5, None, PosInf)"
    by (rule trial_eq_no_update) simp_all
  then show ?thesis unfolding problem_eq_def by (simp add: admm_run_scalar)
qed

lemma run_eq_diverge:
  "admm_run eigh_1x1 spsolve_1x1 (\<lambda>sample. [1 / 2]) problem_eq 2 3 (1 / 4) (1 / 10 ^ 3)
   = Some (Inr (20, None, PosInf))"
proof -
  have t0: "admm_trial eigh_1x1 spsolve_1x1 (\<lambda>sample. [1 / 2])
          (admm_data_of problem_eq (Suc 2) (1 / 4) (1 / 10 ^ 3)) 0 (5, None, PosInf)
        = Some (5 * 2, None, PosInf)"
    by (rule trial_eq_diverge) simp_all
  have t1: "admm_trial eigh_1x1 spsolve_1x1 (\<lambda>sample. [1 / 2])
          (admm_data_of problem_eq (Suc 2) (1 / 4) (1 / 10 ^ 3)) 1 (10, None, PosInf)
        = Some (10 * 2, None, PosInf)"
    by (rule trial_eq_diverge) simp_all
  have three: "(3::nat) = Suc 2" by simp
  show ?thesis
    using t0 t1 unfolding problem_eq_def three by (simp add: admm_run_scalar upt_2)
qed

theorem noncvx_admm_maximize_value_witness:
  "objective_NAME problem_max = ''maximize''
   \<and> noncvx_admm eigh_1x1 spsolve_1x1 (\<lambda>sample. [1]) problem_max 1 1 (10 ^ 10) (1 / 10 ^ 3)
       = Some (Inr (Val (- (24 / 49)), [\<lparr>var_id = 0, var_size = (1, 1), var_value = Some [[5 / 7]]\<rparr>]))
   \<and> quad_val (qt_P (objective_coeffs problem_max)) (qt_Q (objective_coeffs problem_max))
        (qt_R (objective_coeffs problem_max)) [5 / 7] = 24 / 49"
proof -
  have h1: "objective_NAME problem_max = ''maximize''"
    by (simp add: problem_max_def scalar_problem_def)
  have asg: "assign_vars (variables problem_max) (Some [5 / 7])
      = Inr [\<lparr>var_id = 0, var_size = (1, 1), var_value = Some [[5 / 7]]\<rparr>]"
    by (simp add: problem_max_def scalar_problem_def assign_vars_def reshape_F_def)
  have h2: "noncvx_admm eigh_1x1 spsolve_1x1 (\<lambda>sample. [1]) problem_max 1 1 (10 ^ 10) (1 / 10 ^ 3)
       = Some (Inr (Val (- (24 / 49)), [\<lparr>var_id = 0, var_size = (1, 1), var_value = Some [[5 / 7]]\<rparr>]))"
    using asg unfolding noncvx_admm_def by (simp only: run_max) simp
  from noncvx_admm_maximize_value [OF h1 h2] obtain rho x where
    r: "admm_run eigh_1x1 spsolve_1x1 (\<lambda>sample. [1]) problem_max 1 1 (10 ^ 10) (1 / 10 ^ 3)
          = Some (Inr (rho, Some x, Val (- (24 / 49))))"
    and v: "- (24 / 49) = - quad_val (qt_P (objective_coeffs problem_max))
         (qt_Q (objective_coeffs problem_max)) (qt_R (objective_coeffs problem_max)) x"
    by blast
  from r have "x = [5 / 7]" by (simp only: run_max) simp
  with v have "quad_val (qt_P (objective_coeffs problem_max)) (qt_Q (objective_coeffs problem_max))
        (qt_R (objective_coeffs problem_max)) [5 / 7] = 24 / 49" by simp
  with h1 h2 show ?thesis by blast
qed

theorem noncvx_admm_no_feasible_point_witness:
  "admm_run eigh_1x1 spsolve_1x1 (\<lambda>sample. [1 / 2]) problem_eq 1 1 (10 ^ 10) (1 / 10 ^ 3)
     = Some (Inr (5, None, PosInf))
   \<and> variables problem_eq \<noteq> []
   \<and> noncvx_admm eigh_1x1 spsolve_1x1 (\<lambda>sample. [1 / 2]) problem_eq 1 1 (10 ^ 10) (1 / 10 ^ 3)
       = Some (Inl TypeError)"
proof -
  have h2: "variables problem_eq \<noteq> []" by (simp add: problem_eq_def scalar_problem_def)
  from noncvx_admm_no_feasible_point [OF run_eq h2] run_eq h2 show ?thesis by blast
qed

lemma trial_fast_path:
  assumes d: "ad_N d = 1" "ad_P0 d = sp_1x1 a" "ad_Q0 d = [qo]" "ad_R0 d = ro"
      "ad_PP d = [sp_1x1 l]" "ad_QQ d = [[q]]" "ad_RR d = [r]" "ad_rel d = [False]"
      "ad_num_iters d = Suc 0"
    and rz: "randn sample = [zr]"
    and z1: "z1 = (rho * zr - 0 - qo) / (2 * a + rho)"
    and fp: "l * z1 * z1 + z1 * q + r \<le> 0"
    and vl: "0 \<le> ad_viollim d"
  shows "admm_trial eigh_1x1 spsolve_1x1 randn d sample (rho, b) =
           Some (rho, update_best (ad_eps d) 0 (a * z1 * z1 + z1 * qo + ro) [z1] b)"
proof -
  let ?zlhs = "sp_add (sp_scale 2 (sp_1x1 a)) (sp_scale rho (sp_identity 1))"
  have q: "one_qcqp eigh_1x1 [(rho * zr - 0 - qo) / (2 * a + rho) + 1 / rho * 0] (sp_1x1 l) [q] r False
             default_tol = Some [z1]"
    using fp by (simp add: one_qcqp_def quad_form_1x1 dot_1 z1)
  have "admm_step eigh_1x1 spsolve_1x1 d rho ?zlhs ([[zr]], [[0]]) =
     Some ([(rho * zr - 0 - qo) / (2 * a + rho)], [[z1]],
           [[0 + rho * ((rho * zr - 0 - qo) / (2 * a + rho) - z1)]],
           [(z1 + (rho * zr - 0 - qo) / (2 * a + rho)) / 2])"
    by (rule admm_step_scalar [OF d(1) d(5) d(6) d(7) d(8) d(3) _ q]) (simp add: zlhs_scalar)
  then have step: "admm_step eigh_1x1 spsolve_1x1 d rho ?zlhs ([[zr]], [[0]]) =
     Some ([z1], [[z1]], [[0]], [z1])"
    by (simp only: z1 [symmetric]) simp
  have mv: "max_violation d [z1] = 0"
    using fp by (subst max_violation_scalar [OF d(5) d(6) d(7) d(8)]) simp
  have ob: "quad_val (ad_P0 d) (ad_Q0 d) (ad_R0 d) [z1] = a * z1 * z1 + z1 * qo + ro"
    by (simp add: d quad_val_def quad_form_1x1 dot_1)
  have "admm_trial eigh_1x1 spsolve_1x1 randn d sample (rho, b) =
        admm_iters eigh_1x1 spsolve_1x1 d ?zlhs (Suc 0) ([randn sample], [[0]]) (rho, b)"
    by (rule trial_scalar) (simp_all add: d)
  also have "\<dots> = Some (rho, update_best (ad_eps d) 0 (a * z1 * z1 + z1 * qo + ro) [z1] b)"
    using vl unfolding rz
    by (subst admm_iters_Suc [OF step]) (simp only: mv ob, simp)
  finally show ?thesis .
qed

lemma data_min:
  "admm_data_of problem_min ni vl ep =
     \<lparr>ad_N = 1, ad_P0 = sp_1x1 1, ad_Q0 = [0], ad_R0 = 0,
      ad_PP = [sp_1x1 1], ad_QQ = [[0]], ad_RR = [- 4], ad_rel = [False],
      ad_num_iters = ni, ad_viollim = vl, ad_eps = ep\<rparr>"
  by (simp add: problem_min_def admm_data_scalar)

lemma trial_min_0:
  "admm_trial eigh_1x1 spsolve_1x1 draws_min (admm_data_of problem_min (Suc 0) (10 ^ 10) (1 / 10 ^ 3))
     0 (5, None, PosInf) = Some (5, Some [5 / 7], Val (25 / 49))"
proof -
  have "admm_trial eigh_1x1 spsolve_1x1 draws_min (admm_data_of problem_min (Suc 0) (10 ^ 10) (1 / 10 ^ 3))
     0 (5, None, PosInf) =
     Some (5, update_best (ad_eps (admm_data_of problem_min (Suc 0) (10 ^ 10) (1 / 10 ^ 3))) 0
                (1 * (5 / 7) * (5 / 7) + 5 / 7 * 0 + 0) [5 / 7] (None, PosInf))"
    by (rule trial_fast_path [where zr = 1 and l = 1 and q = 0 and r = "- 4"])
       (simp_all add: data_min draws_min_def)
  then show ?thesis by (simp add: update_best_def data_min)
qed

lemma trial_min_1:
  "admm_trial eigh_1x1 spsolve_1x1 draws_min (admm_data_of problem_min (Suc 0) (10 ^ 10) (1 / 10 ^ 3))
     1 (5, Some [5 / 7], Val (25 / 49)) = Some (5, Some [5 / 14], Val (25 / 196))"
proof -
  have "admm_trial eigh_1x1 spsolve_1x1 draws_min (admm_data_of problem_min (Suc 0) (10 ^ 10) (1 / 10 ^ 3))
     1 (5, Some [5 / 7], Val (25 / 49)) =
     Some (5, update_best (ad_eps (admm_data_of problem_min (Suc 0) (10 ^ 10) (1 / 10 ^ 3))) 0
                (1 * (5 / 14) * (5 / 14) + 5 / 14 * 0 + 0) [5 / 14] (Some [5 / 7], Val (25 / 49)))"
    by (rule trial_fast_path [where zr = "1 / 2" and l = 1 and q = 0 and r = "- 4"])
       (simp_all add: data_min draws_min_def)
  then show ?thesis by (simp add: update_best_def data_min)
qed

lemma run_min_1:
  "admm_run eigh_1x1 spsolve_1x1 draws_min problem_min 1 1 (10 ^ 10) (1 / 10 ^ 3)
     = Some (Inr (5, Some [5 / 7], Val (25 / 49)))"
  using trial_min_0 unfolding problem_min_def by (simp add: admm_run_scalar)

lemma run_min_2:
  "admm_run eigh_1x1 spsolve_1x1 draws_min problem_min (1 + 1) 1 (10 ^ 10) (1 / 10 ^ 3)
     = Some (Inr (5, Some [5 / 14], Val (25 / 196)))"
  using trial_min_0 trial_min_1 unfolding problem_min_def by (simp add: admm_run_scalar upt_2)

theorem best_found_monotone_witness:
  "admm_run eigh_1x1 spsolve_1x1 draws_min problem_min (1 + 1) 1 (10 ^ 10) (1 / 10 ^ 3)
     = Some (Inr (5, Some [5 / 14], Val (25 / 196)))
   \<and> admm_run eigh_1x1 spsolve_1x1 draws_min problem_min 1 1 (10 ^ 10) (1 / 10 ^ 3)
     = Some (Inr (5, Some [5 / 7], Val (25 / 49)))
   \<and> fval_le (Val (25 / 196)) (Val (25 / 49))
   \<and> max_violation (admm_data_of problem_min 1 (10 ^ 10) (1 / 10 ^ 3)) [5 / 14] < 1 / 10 ^ 3"
proof -
  from best_found_monotone [OF run_min_2] obtain rho b where
    r1: "admm_run eigh_1x1 spsolve_1x1 draws_min problem_min 1 1 (10 ^ 10) (1 / 10 ^ 3) = Some (Inr (rho, b))"
    and le: "fval_le (snd (Some [5 / 14 :: real], Val (25 / 196))) (snd b)"
    and ch: "(Some [5 / 14], Val (25 / 196)) = b \<or>
             (\<exists>za. (Some [5 / 14], Val (25 / 196)) =
                (Some za, Val (quad_val (ad_P0 (admm_data_of problem_min 1 (10 ^ 10) (1 / 10 ^ 3)))
                                        (ad_Q0 (admm_data_of problem_min 1 (10 ^ 10) (1 / 10 ^ 3)))
                                        (ad_R0 (admm_data_of problem_min 1 (10 ^ 10) (1 / 10 ^ 3))) za))
                \<and> max_violation (admm_data_of problem_min 1 (10 ^ 10) (1 / 10 ^ 3)) za < 1 / 10 ^ 3
                \<and> fval_gt_real (snd b)
                     (quad_val (ad_P0 (admm_data_of problem_min 1 (10 ^ 10) (1 / 10 ^ 3)))
                        (ad_Q0 (admm_data_of problem_min 1 (10 ^ 10) (1 / 10 ^ 3)))
                        (ad_R0 (admm_data_of problem_min 1 (10 ^ 10) (1 / 10 ^ 3))) za))"
    by blast
  from r1 have b: "b = (Some [5 / 7], Val (25 / 49))" by (simp only: run_min_1) simp
  from le b have "fval_le (Val (25 / 196)) (Val (25 / 49))" by simp
  moreover from ch b have "max_violation (admm_data_of problem_min 1 (10 ^ 10) (1 / 10 ^ 3)) [5 / 14] < 1 / 10 ^ 3"
    by auto
  ultimately show ?thesis using run_min_1 run_min_2 by blast
qed

text \<open>The penalty is positive from its initial value on, so \<open>1/rho\<close> is never a division by zero.\<close>

lemma initial_rho_positive: "initial_rho lmb_min M = Inr rho \<Longrightarrow> 0 < rho"
  by (auto simp: initial_rho_def split: if_splits)

lemma admm_run_rho_positive:
  assumes "admm_run eigh spsolve randn self num_samples num_iters viollim eps = Some (Inr (rho, b))"
  shows "0 < rho"
proof -
  let ?d = "admm_data_of self num_iters viollim eps"
  from admm_run_Inr [OF assms] obtain lmb_min rho0 where
    cj: "check_quadraticity self = Inr ()
       \<and> np_min (fst (eigh (todense (ad_P0 ?d)))) = Inr lmb_min
       \<and> initial_rho lmb_min (length (ad_PP ?d)) = Inr rho0
       \<and> admm_trials eigh spsolve randn ?d [0..<num_samples] (rho0, None, PosInf) = Some (rho, b)"
    by (elim exE) (rule that)
  note r = cj [THEN conjunct2, THEN conjunct2, THEN conjunct1]
    and t = cj [THEN conjunct2, THEN conjunct2, THEN conjunct2]
  from admm_trials_inv [OF t] obtain j where "rho = rho0 * 2 ^ j" by blast
  with initial_rho_positive [OF r] show ?thesis by simp
qed

text \<open>
  The sibling strategy: for a maximisation \<open>qcqp_dccp\<close> returns the negated value of what the
  DC solver reports.
\<close>

lemma qcqp_dccp_maximize_value:
  assumes mx: "objective_NAME self = ''maximize''"
    and ret: "qcqp_dccp dccp_installed eigh dccp_solve self = Inr (res, vars')"
  shows "\<exists>N cons r. fst (dccp_solve N cons) = Some r \<and> res = Some (fval_neg r)"
proof -
  from ret mx have "\<exists>N cons res0. fst (dccp_solve N cons) = res0 \<and> negate_result res0 = Inr res"
    by (auto simp: qcqp_dccp_def Let_def case_prod_beta split: sum.splits if_splits)
  then obtain N cons res0 where d: "fst (dccp_solve N cons) = res0" and n: "negate_result res0 = Inr res"
    by blast
  from n obtain r where "res0 = Some r" "res = Some (fval_neg r)"
    by (auto simp: negate_result_def split: option.splits)
  with d show ?thesis by blast
qed

text \<open>
  The loop over the constraints, forwards: when every projection returns, the loop returns
  the projections as the new local copies, with the duals updated for them.
\<close>

lemma local_updates_forward:
  assumes "distinct idx" and "\<forall>i \<in> set idx. i < length xs \<and> i < length ys"
    and "\<forall>i \<in> set idx.
           one_qcqp eigh (vadd z (smul (1 / rho) (ys ! i))) (ad_PP d ! i) (ad_QQ d ! i)
             (ad_RR d ! i) (ad_rel d ! i) default_tol = Some (x' i)"
  shows "local_updates eigh d rho z idx (xs, ys) =
     Some (map (\<lambda>j. if j \<in> set idx then x' j else xs ! j) [0..<length xs],
           map (\<lambda>j. if j \<in> set idx then vadd (ys ! j) (smul rho (vsub z (x' j))) else ys ! j)
             [0..<length ys])"
  using assms
proof (induction idx arbitrary: xs ys)
  case Nil
  then show ?case by (simp add: map_nth)
next
  case (Cons i idx)
  let ?xs1 = "xs[i := x' i]" and ?ys1 = "ys[i := vadd (ys ! i) (smul rho (vsub z (x' i)))]"
  from Cons.prems have d: "distinct idx" and ni: "i \<notin> set idx"
    and ilen: "i < length xs" "i < length ys"
    and b: "\<forall>j \<in> set idx. j < length ?xs1 \<and> j < length ?ys1" by auto
  from Cons.prems(3) have q: "one_qcqp eigh (vadd z (smul (1 / rho) (ys ! i))) (ad_PP d ! i)
      (ad_QQ d ! i) (ad_RR d ! i) (ad_rel d ! i) default_tol = Some (x' i)" by simp
  have each: "\<forall>j \<in> set idx.
           one_qcqp eigh (vadd z (smul (1 / rho) (?ys1 ! j))) (ad_PP d ! j) (ad_QQ d ! j)
             (ad_RR d ! j) (ad_rel d ! j) default_tol = Some (x' j)"
  proof
    fix j assume j: "j \<in> set idx"
    with ni have "j \<noteq> i" by auto
    then have "?ys1 ! j = ys ! j" by simp
    with Cons.prems(3) j show "one_qcqp eigh (vadd z (smul (1 / rho) (?ys1 ! j))) (ad_PP d ! j)
      (ad_QQ d ! j) (ad_RR d ! j) (ad_rel d ! j) default_tol = Some (x' j)" by simp
  qed
  have "local_updates eigh d rho z (i # idx) (xs, ys) = local_updates eigh d rho z idx (?xs1, ?ys1)"
    using q by (simp add: Let_def)
  also have "\<dots> = Some (map (\<lambda>j. if j \<in> set idx then x' j else ?xs1 ! j) [0..<length ?xs1],
           map (\<lambda>j. if j \<in> set idx then vadd (?ys1 ! j) (smul rho (vsub z (x' j))) else ?ys1 ! j)
             [0..<length ?ys1])"
    by (rule Cons.IH [OF d b each])
  also have "map (\<lambda>j. if j \<in> set idx then x' j else ?xs1 ! j) [0..<length ?xs1]
           = map (\<lambda>j. if j \<in> set (i # idx) then x' j else xs ! j) [0..<length xs]"
    using ilen by (auto simp: nth_list_update)
  also have "map (\<lambda>j. if j \<in> set idx then vadd (?ys1 ! j) (smul rho (vsub z (x' j))) else ?ys1 ! j)
             [0..<length ?ys1]
           = map (\<lambda>j. if j \<in> set (i # idx) then vadd (ys ! j) (smul rho (vsub z (x' j))) else ys ! j)
             [0..<length ys]"
    using ilen ni by (auto simp: nth_list_update)
  finally show ?case .
qed

lemma admm_step_forward:
  assumes lens: "length xs = length (ad_PP d)" "length ys = length (ad_PP d)"
    and lx: "length xs' = length (ad_PP d)"
    and proj: "\<forall>i < length (ad_PP d).
       one_qcqp eigh
         (vadd (spsolve zlhs (vsub (sum_cols (ad_N d) (map2 (\<lambda>x y. vsub (smul rho x) y) xs ys)) (ad_Q0 d)))
            (smul (1 / rho) (ys ! i)))
         (ad_PP d ! i) (ad_QQ d ! i) (ad_RR d ! i) (ad_rel d ! i) default_tol = Some (xs' ! i)"
  shows "admm_step eigh spsolve d rho zlhs (xs, ys) =
     Some (spsolve zlhs (vsub (sum_cols (ad_N d) (map2 (\<lambda>x y. vsub (smul rho x) y) xs ys)) (ad_Q0 d)),
           xs',
           map (\<lambda>i. vadd (ys ! i)
                  (smul rho (vsub (spsolve zlhs (vsub (sum_cols (ad_N d)
                      (map2 (\<lambda>x y. vsub (smul rho x) y) xs ys)) (ad_Q0 d))) (xs' ! i))))
             [0..<length (ad_PP d)],
           vdiv (vadd (sum_cols (ad_N d) xs')
                   (spsolve zlhs (vsub (sum_cols (ad_N d) (map2 (\<lambda>x y. vsub (smul rho x) y) xs ys)) (ad_Q0 d))))
             (real (length (ad_PP d) + 1)))"
proof -
  let ?M = "length (ad_PP d)"
  let ?z = "spsolve zlhs (vsub (sum_cols (ad_N d) (map2 (\<lambda>x y. vsub (smul rho x) y) xs ys)) (ad_Q0 d))"
  have b: "\<forall>i \<in> set [0..<?M]. i < length xs \<and> i < length ys" using lens by simp
  have p: "\<forall>i \<in> set [0..<?M].
           one_qcqp eigh (vadd ?z (smul (1 / rho) (ys ! i))) (ad_PP d ! i) (ad_QQ d ! i)
             (ad_RR d ! i) (ad_rel d ! i) default_tol = Some (xs' ! i)"
    using proj by simp
  have "local_updates eigh d rho ?z [0..<?M] (xs, ys) =
     Some (map (\<lambda>j. if j \<in> set [0..<?M] then xs' ! j else xs ! j) [0..<length xs],
           map (\<lambda>j. if j \<in> set [0..<?M] then vadd (ys ! j) (smul rho (vsub ?z (xs' ! j))) else ys ! j)
             [0..<length ys])"
    by (rule local_updates_forward [OF distinct_upt b p])
  also have "map (\<lambda>j. if j \<in> set [0..<?M] then xs' ! j else xs ! j) [0..<length xs] = xs'"
    using lens lx by (intro nth_equalityI) simp_all
  also have "map (\<lambda>j. if j \<in> set [0..<?M] then vadd (ys ! j) (smul rho (vsub ?z (xs' ! j))) else ys ! j)
             [0..<length ys] = map (\<lambda>i. vadd (ys ! i) (smul rho (vsub ?z (xs' ! i)))) [0..<?M]"
    using lens by simp
  finally have lu: "local_updates eigh d rho ?z [0..<?M] (xs, ys) =
     Some (xs', map (\<lambda>i. vadd (ys ! i) (smul rho (vsub ?z (xs' ! i)))) [0..<?M])" .
  show ?thesis unfolding admm_step_def prod.case Let_def lu option.case ..
qed

lemma length_sum_cols: "\<forall>c \<in> set cols. length c = n \<Longrightarrow> length (sum_cols n cols) = n"
  by (induction cols) (simp_all add: sum_cols_def zeros_def vadd_def)

lemma length_rhs:
  assumes "\<forall>x \<in> set xs. length x = n" "\<forall>y \<in> set ys. length y = n" "length q = n"
  shows "length (vsub (sum_cols n (map2 (\<lambda>x y. vsub (smul rho x) y) xs ys)) q) = n"
proof -
  have "\<forall>c \<in> set (map2 (\<lambda>x y. vsub (smul rho x) y) xs ys). length c = n"
    using assms(1,2) by (auto simp: vsub_def smul_def elim!: in_set_zipE)
  from length_sum_cols [OF this] assms(3) show ?thesis by (simp add: vsub_def)
qed

lemma admm_trial_eq:
  "admm_trial eigh spsolve randn d sample (rho, b) =
     admm_iters eigh spsolve d
       (sp_add (sp_scale 2 (ad_P0 d)) (sp_scale (rho * real (length (ad_PP d))) (sp_identity (ad_N d))))
       (ad_num_iters d)
       (replicate (length (ad_PP d)) (randn sample), replicate (length (ad_PP d)) (zeros (ad_N d)))
       (rho, b)"
  by (simp add: admm_trial_def Let_def)


lemma iterate_violation_0:
  "admm_step eigh spsolve d rho zlhs st = Some (z, xs', ys', za) \<Longrightarrow>
   iterate_violation eigh spsolve d rho zlhs 0 st = Some (max_violation d za)"
  by (simp add: iterate_violation_def)

lemma iterate_violation_Suc:
  "admm_step eigh spsolve d rho zlhs st = Some (z, xs', ys', za) \<Longrightarrow>
   iterate_violation eigh spsolve d rho zlhs (Suc t) st
     = iterate_violation eigh spsolve d rho zlhs t (xs', ys')"
  by (simp add: iterate_violation_def)

lemma iterate_violation_step:
  "iterate_violation eigh spsolve d rho zlhs t st = Some v \<Longrightarrow>
   \<exists>z xs' ys' za. admm_step eigh spsolve d rho zlhs st = Some (z, xs', ys', za)"
  by (cases t) (auto simp: iterate_violation_def split: option.splits)

lemma admm_iters_abort:
  assumes "iterate_violation eigh spsolve d rho zlhs t st = Some v" and "ad_viollim d < v"
  shows "\<exists>b'. \<forall>k>t. admm_iters eigh spsolve d zlhs k st (rho, b) = Some (rho * 2, b')"
  using assms
proof (induction t arbitrary: st b)
  case 0
  from iterate_violation_step [OF 0(1)] obtain z xs' ys' za where
    step: "admm_step eigh spsolve d rho zlhs st = Some (z, xs', ys', za)" by blast
  with 0 have v: "ad_viollim d < max_violation d za" by (simp add: iterate_violation_0)
  have "admm_iters eigh spsolve d zlhs k st (rho, b) = Some (rho * 2, b)" if "0 < k" for k
  proof -
    from that obtain k' where "k = Suc k'" by (cases k) auto
    then show ?thesis using admm_iters_Suc [OF step] v by simp
  qed
  then show ?case by blast
next
  case (Suc t)
  from iterate_violation_step [OF Suc.prems(1)] obtain z xs' ys' za where
    step: "admm_step eigh spsolve d rho zlhs st = Some (z, xs', ys', za)" by blast
  from Suc.prems(1) have iv: "iterate_violation eigh spsolve d rho zlhs t (xs', ys') = Some v"
    by (simp add: iterate_violation_Suc [OF step])
  show ?case
  proof (cases "ad_viollim d < max_violation d za")
    case True
    have "admm_iters eigh spsolve d zlhs k st (rho, b) = Some (rho * 2, b)" if "Suc t < k" for k
    proof -
      from that obtain k' where "k = Suc k'" by (cases k) auto
      then show ?thesis using admm_iters_Suc [OF step] True by simp
    qed
    then show ?thesis by blast
  next
    case False
    let ?b1 = "update_best (ad_eps d) (max_violation d za)
                 (quad_val (ad_P0 d) (ad_Q0 d) (ad_R0 d) za) za b"
    from Suc.IH [OF iv Suc.prems(2), of ?b1] obtain b' where
      b': "\<forall>k>t. admm_iters eigh spsolve d zlhs k (xs', ys') (rho, ?b1) = Some (rho * 2, b')"
      by blast
    have "admm_iters eigh spsolve d zlhs k st (rho, b) = Some (rho * 2, b')" if "Suc t < k" for k
    proof -
      from that obtain k' where k: "k = Suc k'" "t < k'" by (cases k) auto
      with b' have "admm_iters eigh spsolve d zlhs k' (xs', ys') (rho, ?b1) = Some (rho * 2, b')"
        by blast
      then show ?thesis using admm_iters_Suc [OF step] False k by simp
    qed
    then show ?thesis by blast
  qed
qed

lemma admm_iters_no_abort:
  assumes "\<forall>t<k. \<exists>v. iterate_violation eigh spsolve d rho zlhs t st = Some v \<and> v \<le> ad_viollim d"
  shows "\<exists>b'. admm_iters eigh spsolve d zlhs k st (rho, b) = Some (rho, b')"
  using assms
proof (induction k arbitrary: st b)
  case 0
  show ?case by simp
next
  case (Suc k)
  from Suc.prems obtain v where
    v: "iterate_violation eigh spsolve d rho zlhs 0 st = Some v" "v \<le> ad_viollim d" by blast
  from iterate_violation_step [OF v(1)] obtain z xs' ys' za where
    step: "admm_step eigh spsolve d rho zlhs st = Some (z, xs', ys', za)" by blast
  with v have le: "\<not> ad_viollim d < max_violation d za" by (simp add: iterate_violation_0)
  let ?b1 = "update_best (ad_eps d) (max_violation d za)
               (quad_val (ad_P0 d) (ad_Q0 d) (ad_R0 d) za) za b"
  have rest: "\<forall>t<k. \<exists>v. iterate_violation eigh spsolve d rho zlhs t (xs', ys') = Some v
                  \<and> v \<le> ad_viollim d"
  proof (intro allI impI)
    fix t assume "t < k"
    then have "Suc t < Suc k" by simp
    with Suc.prems have "\<exists>v. iterate_violation eigh spsolve d rho zlhs (Suc t) st = Some v
                  \<and> v \<le> ad_viollim d" by blast
    then show "\<exists>v. iterate_violation eigh spsolve d rho zlhs t (xs', ys') = Some v
                  \<and> v \<le> ad_viollim d" by (simp add: iterate_violation_Suc [OF step])
  qed
  from Suc.IH [OF rest, of ?b1] obtain b' where
    "admm_iters eigh spsolve d zlhs k (xs', ys') (rho, ?b1) = Some (rho, b')" by blast
  then have "admm_iters eigh spsolve d zlhs (Suc k) st (rho, b) = Some (rho, b')"
    using admm_iters_Suc [OF step] le by simp
  then show ?case by blast
qed

text \<open>Every pass of a trial starts from \<open>M\<close> local copies and \<open>M\<close> duals.\<close>

lemma admm_step_lengths:
  assumes "admm_step eigh spsolve d rho zlhs (xs, ys) = Some (z, xs', ys', za)"
    and "length xs = length (ad_PP d)" "length ys = length (ad_PP d)"
  shows "length xs' = length (ad_PP d) \<and> length ys' = length (ad_PP d)"
proof -
  let ?M = "length (ad_PP d)"
  from assms(1) obtain z0 where
    lu: "local_updates eigh d rho z0 [0..<?M] (xs, ys) = Some (xs', ys')"
    by (auto simp: admm_step_def Let_def split: option.splits)
  have "\<forall>i \<in> set [0..<?M]. i < length xs \<and> i < length ys" using assms(2,3) by simp
  from local_updates_spec [OF distinct_upt this lu] assms(2,3) show ?thesis by simp
qed

lemma admm_state_lengths:
  assumes "admm_state eigh spsolve d rho zlhs t (xs, ys) = Some (xs', ys')"
    and "length xs = length (ad_PP d)" "length ys = length (ad_PP d)"
  shows "length xs' = length (ad_PP d) \<and> length ys' = length (ad_PP d)"
  using assms
proof (induction t arbitrary: xs ys)
  case 0
  then show ?case by simp
next
  case (Suc t)
  from Suc.prems(1) obtain z xs1 ys1 za where
    step: "admm_step eigh spsolve d rho zlhs (xs, ys) = Some (z, xs1, ys1, za)"
    and rest: "admm_state eigh spsolve d rho zlhs t (xs1, ys1) = Some (xs', ys')"
    by (auto split: option.splits)
  from admm_step_lengths [OF step Suc.prems(2,3)] have "length xs1 = length (ad_PP d)"
    "length ys1 = length (ad_PP d)" by simp_all
  from Suc.IH [OF rest this] show ?case .
qed

text \<open>
  C5. An inner iteration of a trial. A trial started with the penalty \<open>rho\<close> runs the loop
  \<open>admm_iters\<close> on the matrix \<open>2*P0 + rho*M*I\<close>, from \<open>M\<close> copies of the drawn point and \<open>M\<close>
  zero duals. One pass of the loop, from local copies \<open>xs\<close> and duals \<open>ys\<close> (\<open>M\<close> columns of
  length \<open>N\<close> each), with a linear solver that solves the systems of this matrix, and with
  every call of \<open>one_qcqp\<close> returning (\<open>xs' ! i\<close> for the target \<open>z + (1/rho)*y_i\<close> against
  \<open>(PP[i], QQ[i], RR[i], rel[i])\<close>): the pass returns; its \<open>z\<close> is the solver's answer to, and
  solves, \<open>(2*P0 + rho*M*I)*z = sum_i (rho*x_i - y_i) - Q0\<close>; the new local copies are the
  results \<open>xs'\<close> of \<open>one_qcqp\<close> and the new duals are \<open>y_i + rho*(z - x_i)\<close>; the averaged
  estimate is \<open>za = (sum_i x_i + z)/(M + 1)\<close>; and the loop evaluates the maximum violation
  and the objective on \<open>za\<close>: it is left with \<open>rho\<close> doubled when the violation exceeds
  \<open>viollim\<close>, and goes on otherwise from the new copies and duals, with the best-found state
  updated for \<open>za\<close>.
\<close>

theorem admm_inner_iteration:
  assumes lens: "length xs = length (ad_PP d)" "length ys = length (ad_PP d)"
    and shape: "\<forall>x \<in> set xs. length x = ad_N d" "\<forall>y \<in> set ys. length y = ad_N d"
      "length (ad_Q0 d) = ad_N d"
    and solver: "\<forall>rhs. length rhs = ad_N d \<longrightarrow>
        sp_matvec (sp_add (sp_scale 2 (ad_P0 d))
                     (sp_scale (rho * real (length (ad_PP d))) (sp_identity (ad_N d))))
          (spsolve (sp_add (sp_scale 2 (ad_P0 d))
                     (sp_scale (rho * real (length (ad_PP d))) (sp_identity (ad_N d)))) rhs) = rhs"
    and lx: "length xs' = length (ad_PP d)"
    and proj: "\<forall>i < length (ad_PP d).
       one_qcqp eigh
         (vadd (spsolve (sp_add (sp_scale 2 (ad_P0 d))
                           (sp_scale (rho * real (length (ad_PP d))) (sp_identity (ad_N d))))
                  (vsub (sum_cols (ad_N d) (map2 (\<lambda>x y. vsub (smul rho x) y) xs ys)) (ad_Q0 d)))
            (smul (1 / rho) (ys ! i)))
         (ad_PP d ! i) (ad_QQ d ! i) (ad_RR d ! i) (ad_rel d ! i) default_tol = Some (xs' ! i)"
  shows "\<exists>z ys' za.
       z = spsolve (sp_add (sp_scale 2 (ad_P0 d))
                      (sp_scale (rho * real (length (ad_PP d))) (sp_identity (ad_N d))))
             (vsub (sum_cols (ad_N d) (map2 (\<lambda>x y. vsub (smul rho x) y) xs ys)) (ad_Q0 d))
     \<and> sp_matvec (sp_add (sp_scale 2 (ad_P0 d))
                     (sp_scale (rho * real (length (ad_PP d))) (sp_identity (ad_N d)))) z
         = vsub (sum_cols (ad_N d) (map2 (\<lambda>x y. vsub (smul rho x) y) xs ys)) (ad_Q0 d)
     \<and> ys' = map (\<lambda>i. vadd (ys ! i) (smul rho (vsub z (xs' ! i)))) [0..<length (ad_PP d)]
     \<and> za = vdiv (vadd (sum_cols (ad_N d) xs') z) (real (length (ad_PP d) + 1))
     \<and> admm_step eigh spsolve d rho
         (sp_add (sp_scale 2 (ad_P0 d))
            (sp_scale (rho * real (length (ad_PP d))) (sp_identity (ad_N d))))
         (xs, ys) = Some (z, xs', ys', za)
     \<and> (\<forall>k b. admm_iters eigh spsolve d
                  (sp_add (sp_scale 2 (ad_P0 d))
                     (sp_scale (rho * real (length (ad_PP d))) (sp_identity (ad_N d))))
                  (Suc k) (xs, ys) (rho, b) =
                (if ad_viollim d < max_violation d za then Some (rho * 2, b)
                 else admm_iters eigh spsolve d
                        (sp_add (sp_scale 2 (ad_P0 d))
                           (sp_scale (rho * real (length (ad_PP d))) (sp_identity (ad_N d))))
                        k (xs', ys')
                        (rho, update_best (ad_eps d) (max_violation d za)
                                (quad_val (ad_P0 d) (ad_Q0 d) (ad_R0 d) za) za b)))
     \<and> (\<forall>randn sample b. admm_trial eigh spsolve randn d sample (rho, b) =
           admm_iters eigh spsolve d
             (sp_add (sp_scale 2 (ad_P0 d))
                (sp_scale (rho * real (length (ad_PP d))) (sp_identity (ad_N d))))
             (ad_num_iters d)
             (replicate (length (ad_PP d)) (randn sample),
              replicate (length (ad_PP d)) (zeros (ad_N d)))
             (rho, b))"
proof -
  let ?M = "length (ad_PP d)"
  let ?zlhs = "sp_add (sp_scale 2 (ad_P0 d)) (sp_scale (rho * real ?M) (sp_identity (ad_N d)))"
  let ?rhs = "vsub (sum_cols (ad_N d) (map2 (\<lambda>x y. vsub (smul rho x) y) xs ys)) (ad_Q0 d)"
  let ?z = "spsolve ?zlhs ?rhs"
  let ?ys' = "map (\<lambda>i. vadd (ys ! i) (smul rho (vsub ?z (xs' ! i)))) [0..<?M]"
  let ?za = "vdiv (vadd (sum_cols (ad_N d) xs') ?z) (real (?M + 1))"
  have step: "admm_step eigh spsolve d rho ?zlhs (xs, ys) = Some (?z, xs', ?ys', ?za)"
    by (rule admm_step_forward [where spsolve = spsolve and zlhs = ?zlhs and eigh = eigh,
          OF lens lx proj])
  have "length ?rhs = ad_N d" by (rule length_rhs [OF shape])
  with solver have sys: "sp_matvec ?zlhs ?z = ?rhs" by blast
  have it: "\<forall>k b. admm_iters eigh spsolve d ?zlhs (Suc k) (xs, ys) (rho, b) =
                (if ad_viollim d < max_violation d ?za then Some (rho * 2, b)
                 else admm_iters eigh spsolve d ?zlhs k (xs', ?ys')
                        (rho, update_best (ad_eps d) (max_violation d ?za)
                                (quad_val (ad_P0 d) (ad_Q0 d) (ad_R0 d) ?za) ?za b))"
    by (intro allI) (rule admm_iters_Suc [OF step])
  have tr: "\<forall>randn sample b. admm_trial eigh spsolve randn d sample (rho, b) =
           admm_iters eigh spsolve d ?zlhs (ad_num_iters d)
             (replicate ?M (randn sample), replicate ?M (zeros (ad_N d))) (rho, b)"
    by (intro allI) (rule admm_trial_eq)
  show ?thesis
    by (rule exI [of _ ?z], rule exI [of _ ?ys'], rule exI [of _ ?za])
       (intro conjI refl sys step it tr)
qed

text \<open>
  C9. With \<open>M > 0\<close> constraints and \<open>lmb_min\<close> the minimum eigenvalue of the objective's \<open>P0\<close>,
  the run starts its trials with \<open>rho0 = 5 * (2*(1 - lmb_min)/M)\<close> when \<open>lmb_min < 0\<close> and
  \<open>5 * (1/M)\<close> otherwise, a positive number. A trial started with \<open>rho\<close> returns what the loop
  \<open>admm_iters\<close> leaves, run on the matrix \<open>2*P0 + rho*M*I\<close> built from that \<open>rho\<close>. If the maximum
  violation computed in some pass \<open>t < num_iters\<close> of the trial exceeds \<open>viollim\<close>, the trial
  returns \<open>rho * 2\<close>, whatever the number of passes after \<open>t\<close> (the loop has been left), and
  the trials after it start from \<open>rho * 2\<close>. If no pass exceeds \<open>viollim\<close>, the trial returns
  \<open>rho\<close> unchanged. The state left by any prefix of the trials is the state the remaining
  trials start from; any sequence of trials multiplies \<open>rho\<close> by a power of two, at most one
  doubling per trial, and the run ends with \<open>rho0 * 2^j\<close>, \<open>j \<le> num_samples\<close>.
\<close>

theorem admm_penalty:
  assumes quad: "check_quadraticity self = Inr ()"
    and lmb: "np_min (fst (eigh (todense (ad_P0 (admm_data_of self num_iters viollim eps))))) = Inr lmb_min"
    and M: "M = length (ad_PP (admm_data_of self num_iters viollim eps))" "0 < M"
    and rho0: "rho0 = (if lmb_min < 0 then 2 * (1 - lmb_min) / real M else 1 / real M) * 5"
  shows "admm_run eigh spsolve randn self num_samples num_iters viollim eps =
           (case admm_trials eigh spsolve randn (admm_data_of self num_iters viollim eps)
                   [0..<num_samples] (rho0, None, PosInf) of
              None \<Rightarrow> None | Some g \<Rightarrow> Some (Inr g))
       \<and> 0 < rho0
       \<and> (\<forall>sample rho b.
             admm_trial eigh spsolve randn (admm_data_of self num_iters viollim eps) sample (rho, b) =
               admm_iters eigh spsolve (admm_data_of self num_iters viollim eps)
                 (sp_add (sp_scale 2 (ad_P0 (admm_data_of self num_iters viollim eps)))
                    (sp_scale (rho * real M) (sp_identity (ad_N (admm_data_of self num_iters viollim eps)))))
                 num_iters
                 (replicate M (randn sample),
                  replicate M (zeros (ad_N (admm_data_of self num_iters viollim eps))))
                 (rho, b))
       \<and> (\<forall>sample rho b t v.
             t < num_iters
           \<and> iterate_violation eigh spsolve (admm_data_of self num_iters viollim eps) rho
               (sp_add (sp_scale 2 (ad_P0 (admm_data_of self num_iters viollim eps)))
                  (sp_scale (rho * real M) (sp_identity (ad_N (admm_data_of self num_iters viollim eps)))))
               t (replicate M (randn sample),
                  replicate M (zeros (ad_N (admm_data_of self num_iters viollim eps)))) = Some v
           \<and> viollim < v
           \<longrightarrow> (\<exists>b'. admm_trial eigh spsolve randn (admm_data_of self num_iters viollim eps) sample (rho, b)
                        = Some (rho * 2, b')
                  \<and> (\<forall>k>t. admm_iters eigh spsolve (admm_data_of self num_iters viollim eps)
                        (sp_add (sp_scale 2 (ad_P0 (admm_data_of self num_iters viollim eps)))
                           (sp_scale (rho * real M) (sp_identity (ad_N (admm_data_of self num_iters viollim eps)))))
                        k (replicate M (randn sample),
                           replicate M (zeros (ad_N (admm_data_of self num_iters viollim eps))))
                        (rho, b) = Some (rho * 2, b'))
                  \<and> (\<forall>rest. admm_trials eigh spsolve randn (admm_data_of self num_iters viollim eps)
                               (sample # rest) (rho, b)
                             = admm_trials eigh spsolve randn (admm_data_of self num_iters viollim eps)
                                 rest (rho * 2, b'))))
       \<and> (\<forall>sample rho b.
             (\<forall>t < num_iters. \<exists>v.
                iterate_violation eigh spsolve (admm_data_of self num_iters viollim eps) rho
                  (sp_add (sp_scale 2 (ad_P0 (admm_data_of self num_iters viollim eps)))
                     (sp_scale (rho * real M) (sp_identity (ad_N (admm_data_of self num_iters viollim eps)))))
                  t (replicate M (randn sample),
                     replicate M (zeros (ad_N (admm_data_of self num_iters viollim eps)))) = Some v
                \<and> v \<le> viollim)
           \<longrightarrow> (\<exists>b'. admm_trial eigh spsolve randn (admm_data_of self num_iters viollim eps) sample (rho, b)
                        = Some (rho, b')
                  \<and> (\<forall>rest. admm_trials eigh spsolve randn (admm_data_of self num_iters viollim eps)
                               (sample # rest) (rho, b)
                             = admm_trials eigh spsolve randn (admm_data_of self num_iters viollim eps)
                                 rest (rho, b'))))
       \<and> (\<forall>ss ts g. admm_trials eigh spsolve randn (admm_data_of self num_iters viollim eps) (ss @ ts) g =
             (case admm_trials eigh spsolve randn (admm_data_of self num_iters viollim eps) ss g of
                None \<Rightarrow> None
              | Some g' \<Rightarrow> admm_trials eigh spsolve randn (admm_data_of self num_iters viollim eps) ts g'))
       \<and> (\<forall>samples rho b rho' b'.
             admm_trials eigh spsolve randn (admm_data_of self num_iters viollim eps) samples (rho, b)
               = Some (rho', b')
           \<longrightarrow> (\<exists>j \<le> length samples. rho' = rho * 2 ^ j))
       \<and> (\<forall>rho' b'. admm_run eigh spsolve randn self num_samples num_iters viollim eps
                        = Some (Inr (rho', b'))
           \<longrightarrow> (\<exists>j \<le> num_samples. rho' = rho0 * 2 ^ j))"
proof -
  let ?d = "admm_data_of self num_iters viollim eps"
  let ?zl = "\<lambda>rho. sp_add (sp_scale 2 (ad_P0 ?d)) (sp_scale (rho * real M) (sp_identity (ad_N ?d)))"
  let ?init = "\<lambda>sample. (replicate M (randn sample), replicate M (zeros (ad_N ?d)))"
  have ir: "initial_rho lmb_min (length (ad_PP ?d)) = Inr rho0"
    using M rho0 by (simp add: initial_rho_def)
  have run: "admm_run eigh spsolve randn self num_samples num_iters viollim eps =
           (case admm_trials eigh spsolve randn ?d [0..<num_samples] (rho0, None, PosInf) of
              None \<Rightarrow> None | Some g \<Rightarrow> Some (Inr g))"
    by (rule admm_run_eq [where eigh = eigh, OF quad lmb ir])
  have pos: "0 < rho0" by (rule initial_rho_positive [OF ir])
  have tr: "admm_trial eigh spsolve randn ?d sample (rho, b) =
               admm_iters eigh spsolve ?d (?zl rho) num_iters (?init sample) (rho, b)"
    for sample rho b
    using admm_trial_eq [of eigh spsolve randn ?d sample rho b] by (simp only: M(1) admm_data_fields)
  have abort: "\<exists>b'. admm_trial eigh spsolve randn ?d sample (rho, b) = Some (rho * 2, b')
                  \<and> (\<forall>k>t. admm_iters eigh spsolve ?d (?zl rho) k (?init sample) (rho, b)
                         = Some (rho * 2, b'))
                  \<and> (\<forall>rest. admm_trials eigh spsolve randn ?d (sample # rest) (rho, b)
                             = admm_trials eigh spsolve randn ?d rest (rho * 2, b'))"
    if t: "t < num_iters"
      and iv: "iterate_violation eigh spsolve ?d rho (?zl rho) t (?init sample) = Some v"
      and v: "viollim < v" for sample rho b t v
  proof -
    from v have "ad_viollim ?d < v" by (simp only: admm_data_fields)
    from admm_iters_abort [OF iv this, of b] obtain b' where
      b': "\<forall>k>t. admm_iters eigh spsolve ?d (?zl rho) k (?init sample) (rho, b) = Some (rho * 2, b')"
      by blast
    with t have "admm_iters eigh spsolve ?d (?zl rho) num_iters (?init sample) (rho, b) = Some (rho * 2, b')"
      by blast
    then have a: "admm_trial eigh spsolve randn ?d sample (rho, b) = Some (rho * 2, b')"
      by (simp only: tr)
    then have "\<forall>rest. admm_trials eigh spsolve randn ?d (sample # rest) (rho, b)
                             = admm_trials eigh spsolve randn ?d rest (rho * 2, b')"
      by simp
    with a b' show ?thesis by blast
  qed
  have stay: "\<exists>b'. admm_trial eigh spsolve randn ?d sample (rho, b) = Some (rho, b')
                  \<and> (\<forall>rest. admm_trials eigh spsolve randn ?d (sample # rest) (rho, b)
                             = admm_trials eigh spsolve randn ?d rest (rho, b'))"
    if iv: "\<forall>t < num_iters. \<exists>v.
                iterate_violation eigh spsolve ?d rho (?zl rho) t (?init sample) = Some v
                \<and> v \<le> viollim" for sample rho b
  proof -
    from iv have "\<forall>t < num_iters. \<exists>v.
                iterate_violation eigh spsolve ?d rho (?zl rho) t (?init sample) = Some v
                \<and> v \<le> ad_viollim ?d" by (simp only: admm_data_fields)
    from admm_iters_no_abort [OF this, of b] obtain b' where
      "admm_iters eigh spsolve ?d (?zl rho) num_iters (?init sample) (rho, b) = Some (rho, b')"
      by blast
    then have a: "admm_trial eigh spsolve randn ?d sample (rho, b) = Some (rho, b')"
      by (simp only: tr)
    then have "\<forall>rest. admm_trials eigh spsolve randn ?d (sample # rest) (rho, b)
                             = admm_trials eigh spsolve randn ?d rest (rho, b')"
      by simp
    with a show ?thesis by blast
  qed
  have app: "\<forall>ss ts g. admm_trials eigh spsolve randn ?d (ss @ ts) g =
             (case admm_trials eigh spsolve randn ?d ss g of
                None \<Rightarrow> None
              | Some g' \<Rightarrow> admm_trials eigh spsolve randn ?d ts g')"
    by (intro allI) (rule admm_trials_append)
  have pw: "\<exists>j \<le> length samples. rho' = rho * 2 ^ j"
    if "admm_trials eigh spsolve randn ?d samples (rho, b) = Some (rho', b')" for samples rho b rho' b'
    using admm_trials_inv [OF that] by (rule conjunct1)
  have grow: "\<exists>j \<le> num_samples. rho' = rho0 * 2 ^ j"
    if r: "admm_run eigh spsolve randn self num_samples num_iters viollim eps = Some (Inr (rho', b'))"
    for rho' b'
  proof -
    from r run have "admm_trials eigh spsolve randn ?d [0..<num_samples] (rho0, None, PosInf) = Some (rho', b')"
      by (simp split: option.splits)
    from pw [OF this] show ?thesis by simp
  qed
  show ?thesis
    apply (intro conjI allI impI)
           apply (rule run)
          apply (rule pos)
         apply (rule tr)
        apply (elim conjE, erule (2) abort)
       apply (erule stay)
      apply (rule app [rule_format])
     apply (erule pw)
    apply (erule grow)
    done
qed


theorem admm_inner_iteration_witness:
  "length [[1 / 2 :: real]] = length (ad_PP (admm_data_of problem_eq 1 (10 ^ 10) (1 / 10 ^ 3)))
   \<and> length [[0 :: real]] = length (ad_PP (admm_data_of problem_eq 1 (10 ^ 10) (1 / 10 ^ 3)))
   \<and> length (ad_Q0 (admm_data_of problem_eq 1 (10 ^ 10) (1 / 10 ^ 3)))
       = ad_N (admm_data_of problem_eq 1 (10 ^ 10) (1 / 10 ^ 3))
   \<and> length [[1 :: real]] = length (ad_PP (admm_data_of problem_eq 1 (10 ^ 10) (1 / 10 ^ 3)))
   \<and> one_qcqp eigh_1x1 (vadd [1 / 2] (smul (1 / 5) [0])) (sp_1x1 1) [0] (- 1) True default_tol = Some [1]
   \<and> spsolve_1x1
        (sp_add (sp_scale 2 (ad_P0 (admm_data_of problem_eq 1 (10 ^ 10) (1 / 10 ^ 3))))
           (sp_scale (5 * real (length (ad_PP (admm_data_of problem_eq 1 (10 ^ 10) (1 / 10 ^ 3)))))
              (sp_identity (ad_N (admm_data_of problem_eq 1 (10 ^ 10) (1 / 10 ^ 3))))))
        [5 / 2] = [1 / 2]
   \<and> sp_matvec
        (sp_add (sp_scale 2 (ad_P0 (admm_data_of problem_eq 1 (10 ^ 10) (1 / 10 ^ 3))))
           (sp_scale (5 * real (length (ad_PP (admm_data_of problem_eq 1 (10 ^ 10) (1 / 10 ^ 3)))))
              (sp_identity (ad_N (admm_data_of problem_eq 1 (10 ^ 10) (1 / 10 ^ 3))))))
        [1 / 2] = [5 / 2]
   \<and> admm_step eigh_1x1 spsolve_1x1 (admm_data_of problem_eq 1 (10 ^ 10) (1 / 10 ^ 3)) 5
        (sp_add (sp_scale 2 (ad_P0 (admm_data_of problem_eq 1 (10 ^ 10) (1 / 10 ^ 3))))
           (sp_scale (5 * real (length (ad_PP (admm_data_of problem_eq 1 (10 ^ 10) (1 / 10 ^ 3)))))
              (sp_identity (ad_N (admm_data_of problem_eq 1 (10 ^ 10) (1 / 10 ^ 3))))))
        ([[1 / 2]], [[0]]) = Some ([1 / 2], [[1]], [[- (5 / 2)]], [3 / 4])
   \<and> admm_trial eigh_1x1 spsolve_1x1 (\<lambda>sample. [1 / 2])
        (admm_data_of problem_eq 1 (10 ^ 10) (1 / 10 ^ 3)) 0 (5, None, PosInf)
       = Some (5, None, PosInf)"
proof -
  let ?d = "admm_data_of problem_eq 1 (10 ^ 10) (1 / 10 ^ 3)"
  let ?zlhs = "sp_add (sp_scale 2 (ad_P0 ?d))
                 (sp_scale (5 * real (length (ad_PP ?d))) (sp_identity (ad_N ?d)))"
  let ?rhs = "vsub (sum_cols (ad_N ?d) (map2 (\<lambda>x y. vsub (smul 5 x) y) [[1 / 2]] [[0]])) (ad_Q0 ?d)"
  have zl: "?zlhs = sp_add (sp_scale 2 (sp_1x1 0)) (sp_scale 5 (sp_identity 1))"
    by (simp add: data_eq)
  have rhs: "?rhs = [5 / 2]"
    by (simp add: data_eq sum_cols_def vadd_def vsub_def smul_def zeros_def)
  have ez: "spsolve_1x1 ?zlhs [5 / 2] = [1 / 2]"
    unfolding zl
    by (simp add: spsolve_1x1_def sp_add_def sp_scale_def sp_1x1_def sp_identity_def sp_elem_def)
  have h1: "length [[1 / 2 :: real]] = length (ad_PP ?d)" by (simp add: data_eq)
  have h2: "length [[0 :: real]] = length (ad_PP ?d)" by (simp add: data_eq)
  have h3: "\<forall>x \<in> set [[1 / 2 :: real]]. length x = ad_N ?d" by (simp add: data_eq)
  have h4: "\<forall>y \<in> set [[0 :: real]]. length y = ad_N ?d" by (simp add: data_eq)
  have h5: "length (ad_Q0 ?d) = ad_N ?d" by (simp add: data_eq)
  have h6: "\<forall>rhs. length rhs = ad_N ?d \<longrightarrow> sp_matvec ?zlhs (spsolve_1x1 ?zlhs rhs) = rhs"
  proof (intro allI impI)
    fix rhs :: vec assume "length rhs = ad_N ?d"
    then have "length rhs = Suc 0" by (simp add: data_eq)
    then obtain r where r: "rhs = [r]" by (auto simp: length_Suc_conv)
    show "sp_matvec ?zlhs (spsolve_1x1 ?zlhs rhs) = rhs"
      unfolding zl r
      by (simp add: sp_matvec_def spsolve_1x1_def sp_add_def sp_scale_def sp_1x1_def sp_identity_def
          sp_elem_def)
  qed
  have h7: "length [[1 :: real]] = length (ad_PP ?d)" by (simp add: data_eq)
  have q: "one_qcqp eigh_1x1 (vadd [1 / 2] (smul (1 / 5) [0])) (sp_1x1 1) [0] (- 1) True default_tol
             = Some [1]"
    using qcqp_half by (simp add: default_tol_def vadd_def smul_def)
  have h8: "\<forall>i < length (ad_PP ?d).
       one_qcqp eigh_1x1 (vadd (spsolve_1x1 ?zlhs ?rhs) (smul (1 / 5) ([[0]] ! i)))
         (ad_PP ?d ! i) (ad_QQ ?d ! i) (ad_RR ?d ! i) (ad_rel ?d ! i) default_tol = Some ([[1]] ! i)"
  proof (intro allI impI)
    fix i assume "i < length (ad_PP ?d)"
    then have i: "i = 0" by (simp add: data_eq)
    have pp: "ad_PP ?d ! 0 = sp_1x1 1" "ad_QQ ?d ! 0 = [0]" "ad_RR ?d ! 0 = - 1" "ad_rel ?d ! 0 = True"
      by (simp_all add: data_eq)
    show "one_qcqp eigh_1x1 (vadd (spsolve_1x1 ?zlhs ?rhs) (smul (1 / 5) ([[0]] ! i)))
         (ad_PP ?d ! i) (ad_QQ ?d ! i) (ad_RR ?d ! i) (ad_rel ?d ! i) default_tol = Some ([[1]] ! i)"
      unfolding i rhs ez pp nth_Cons_0 by (rule q)
  qed
  from admm_inner_iteration [where eigh = eigh_1x1 and spsolve = spsolve_1x1 and d = ?d and rho = 5
      and xs = "[[1 / 2]]" and ys = "[[0]]" and xs' = "[[1]]", OF h1 h2 h3 h4 h5 h6 h7 h8]
  obtain z ys' za where
    z: "z = spsolve_1x1 ?zlhs ?rhs"
    and sys: "sp_matvec ?zlhs z = ?rhs"
    and ys': "ys' = map (\<lambda>i. vadd ([[0]] ! i) (smul 5 (vsub z ([[1]] ! i)))) [0..<length (ad_PP ?d)]"
    and za: "za = vdiv (vadd (sum_cols (ad_N ?d) [[1]]) z) (real (length (ad_PP ?d) + 1))"
    and step: "admm_step eigh_1x1 spsolve_1x1 ?d 5 ?zlhs ([[1 / 2]], [[0]]) = Some (z, [[1]], ys', za)"
    and it: "\<forall>k b. admm_iters eigh_1x1 spsolve_1x1 ?d ?zlhs (Suc k) ([[1 / 2]], [[0]]) (5, b) =
                (if ad_viollim ?d < max_violation ?d za then Some (5 * 2, b)
                 else admm_iters eigh_1x1 spsolve_1x1 ?d ?zlhs k ([[1]], ys')
                        (5, update_best (ad_eps ?d) (max_violation ?d za)
                                (quad_val (ad_P0 ?d) (ad_Q0 ?d) (ad_R0 ?d) za) za b))"
    and tr: "\<forall>randn sample b. admm_trial eigh_1x1 spsolve_1x1 randn ?d sample (5, b) =
           admm_iters eigh_1x1 spsolve_1x1 ?d ?zlhs (ad_num_iters ?d)
             (replicate (length (ad_PP ?d)) (randn sample),
              replicate (length (ad_PP ?d)) (zeros (ad_N ?d))) (5, b)"
    by (elim exE conjE)
  have zv: "z = [1 / 2]" by (simp only: z rhs ez)
  have yv: "ys' = [[- (5 / 2)]]"
    unfolding ys' zv by (simp add: data_eq vadd_def smul_def vsub_def)
  have zav: "za = [3 / 4]"
    unfolding za zv by (simp add: data_eq sum_cols_def zeros_def vadd_def vdiv_def)
  from sys have c1: "sp_matvec ?zlhs [1 / 2] = [5 / 2]" by (simp only: zv rhs)
  from step have c2: "admm_step eigh_1x1 spsolve_1x1 ?d 5 ?zlhs ([[1 / 2]], [[0]])
                        = Some ([1 / 2], [[1]], [[- (5 / 2)]], [3 / 4])"
    by (simp only: zv yv zav)
  have init: "(replicate (length (ad_PP ?d)) [1 / 2 :: real], replicate (length (ad_PP ?d)) (zeros (ad_N ?d)))
                = ([[1 / 2]], [[0]])"
    by (simp add: data_eq zeros_def)
  have ni: "ad_num_iters ?d = Suc 0" by (simp add: admm_data_fields)
  have "admm_trial eigh_1x1 spsolve_1x1 (\<lambda>sample. [1 / 2]) ?d 0 (5, None, PosInf)
          = admm_iters eigh_1x1 spsolve_1x1 ?d ?zlhs (Suc 0) ([[1 / 2]], [[0]]) (5, None, PosInf)"
    using tr [rule_format, of "\<lambda>sample. [1 / 2]" 0 "(None, PosInf)"] by (simp only: init ni)
  also have "\<dots> = (if ad_viollim ?d < max_violation ?d [3 / 4] then Some (5 * 2, None, PosInf)
                 else admm_iters eigh_1x1 spsolve_1x1 ?d ?zlhs 0 ([[1]], [[- (5 / 2)]])
                        (5, update_best (ad_eps ?d) (max_violation ?d [3 / 4])
                                (quad_val (ad_P0 ?d) (ad_Q0 ?d) (ad_R0 ?d) [3 / 4]) [3 / 4] (None, PosInf)))"
    using it [rule_format, of 0 "(None, PosInf)"] by (simp only: zav yv)
  also have "\<dots> = Some (5, None, PosInf)"
    by (simp only: mv_eq ob_eq admm_data_fields) (simp add: update_best_def)
  finally have c3: "admm_trial eigh_1x1 spsolve_1x1 (\<lambda>sample. [1 / 2]) ?d 0 (5, None, PosInf)
          = Some (5, None, PosInf)" .
  from h1 h2 h5 h7 q ez c1 c2 c3 show ?thesis by blast
qed


theorem admm_penalty_witness:
  "check_quadraticity problem_eq = Inr ()
   \<and> np_min (fst (eigh_1x1 (todense (ad_P0 (admm_data_of problem_eq 3 (1 / 4) (1 / 10 ^ 3)))))) = Inr 0
   \<and> (1::nat) = length (ad_PP (admm_data_of problem_eq 3 (1 / 4) (1 / 10 ^ 3)))
   \<and> (0::nat) < 1
   \<and> (5::real) = (if (0::real) < 0 then 2 * (1 - 0) / real 1 else 1 / real 1) * 5
   \<and> iterate_violation eigh_1x1 spsolve_1x1 (admm_data_of problem_eq 3 (1 / 4) (1 / 10 ^ 3)) 5
        (sp_add (sp_scale 2 (ad_P0 (admm_data_of problem_eq 3 (1 / 4) (1 / 10 ^ 3))))
           (sp_scale (5 * real 1) (sp_identity (ad_N (admm_data_of problem_eq 3 (1 / 4) (1 / 10 ^ 3))))))
        0 (replicate 1 [1 / 2], replicate 1 (zeros (ad_N (admm_data_of problem_eq 3 (1 / 4) (1 / 10 ^ 3)))))
       = Some (7 / 16)
   \<and> (1 / 4 :: real) < 7 / 16
   \<and> (\<exists>b'. admm_trial eigh_1x1 spsolve_1x1 (\<lambda>sample. [1 / 2])
               (admm_data_of problem_eq 3 (1 / 4) (1 / 10 ^ 3)) 0 (5, None, PosInf) = Some (5 * 2, b')
           \<and> admm_trials eigh_1x1 spsolve_1x1 (\<lambda>sample. [1 / 2])
               (admm_data_of problem_eq 3 (1 / 4) (1 / 10 ^ 3)) [0, 1] (5, None, PosInf)
             = admm_trials eigh_1x1 spsolve_1x1 (\<lambda>sample. [1 / 2])
               (admm_data_of problem_eq 3 (1 / 4) (1 / 10 ^ 3)) [1] (5 * 2, b'))
   \<and> admm_run eigh_1x1 spsolve_1x1 (\<lambda>sample. [1 / 2]) problem_eq 2 3 (1 / 4) (1 / 10 ^ 3)
       = Some (Inr (20, None, PosInf))
   \<and> (\<exists>j \<le> 2. (20::real) = 5 * 2 ^ j)"
proof -
  let ?d = "admm_data_of problem_eq 3 (1 / 4) (1 / 10 ^ 3)"
  let ?zl = "sp_add (sp_scale 2 (ad_P0 ?d)) (sp_scale (5 * real 1) (sp_identity (ad_N ?d)))"
  let ?init = "(replicate 1 [1 / 2 :: real], replicate 1 (zeros (ad_N ?d)))"
  have h1: "check_quadraticity problem_eq = Inr ()"
    unfolding problem_eq_def by (rule check_scalar)
  have h2: "np_min (fst (eigh_1x1 (todense (ad_P0 ?d)))) = Inr 0"
    by (simp add: data_eq eigh_1x1_dense np_min_def)
  have h3: "(1::nat) = length (ad_PP ?d)" by (simp add: data_eq)
  have h4: "(0::nat) < 1" by simp
  have h5: "(5::real) = (if (0::real) < 0 then 2 * (1 - 0) / real 1 else 1 / real 1) * 5" by simp
  have zl: "?zl = sp_add (sp_scale 2 (sp_1x1 0)) (sp_scale 5 (sp_identity 1))"
    by (simp add: data_eq)
  have init: "?init = ([[1 / 2]], [[0]])" by (simp add: data_eq zeros_def)
  have step: "admm_step eigh_1x1 spsolve_1x1 ?d 5
                (sp_add (sp_scale 2 (sp_1x1 0)) (sp_scale 5 (sp_identity 1))) ([[1 / 2]], [[0]])
              = Some ([1 / 2], [[1]], [[- (5 / 2)]], [3 / 4])"
    using step_eq [of 5 3 "1 / 4" "1 / 10 ^ 3"] by simp
  have iv: "iterate_violation eigh_1x1 spsolve_1x1 ?d 5 ?zl 0 ?init = Some (7 / 16)"
    unfolding zl init by (simp only: iterate_violation_0 [OF step] mv_eq)
  have lt: "(1 / 4 :: real) < 7 / 16" by simp
  have t3: "(0::nat) < 3" by simp
  note th = admm_penalty [where eigh = eigh_1x1 and spsolve = spsolve_1x1
      and randn = "\<lambda>sample. [1 / 2]" and num_samples = 2, OF h1 h2 h3 h4 h5]
  note th4 = th [THEN conjunct2, THEN conjunct2, THEN conjunct2, THEN conjunct1]
  have "\<exists>b'. admm_trial eigh_1x1 spsolve_1x1 (\<lambda>sample. [1 / 2]) ?d 0 (5, None, PosInf) = Some (5 * 2, b')
          \<and> (\<forall>k>0. admm_iters eigh_1x1 spsolve_1x1 ?d ?zl k ?init (5, None, PosInf) = Some (5 * 2, b'))
          \<and> (\<forall>rest. admm_trials eigh_1x1 spsolve_1x1 (\<lambda>sample. [1 / 2]) ?d (0 # rest) (5, None, PosInf)
                = admm_trials eigh_1x1 spsolve_1x1 (\<lambda>sample. [1 / 2]) ?d rest (5 * 2, b'))"
    by (rule th4 [rule_format], rule conjI, rule t3, rule conjI, rule iv, rule lt)
  then have ab: "\<exists>b'. admm_trial eigh_1x1 spsolve_1x1 (\<lambda>sample. [1 / 2]) ?d 0 (5, None, PosInf) = Some (5 * 2, b')
           \<and> admm_trials eigh_1x1 spsolve_1x1 (\<lambda>sample. [1 / 2]) ?d [0, 1] (5, None, PosInf)
             = admm_trials eigh_1x1 spsolve_1x1 (\<lambda>sample. [1 / 2]) ?d [1] (5 * 2, b')"
    by blast
  have "\<exists>j \<le> 2. (20::real) = 5 * 2 ^ j"
    by (rule exI [of _ 2]) simp
  with h1 h2 h3 h4 h5 iv lt ab run_eq_diverge show ?thesis by blast
qed

subsection \<open>The slow path of the secular-equation solver\<close>

lemma dot_nth:
  assumes "length xs = length ys"
  shows "dot xs ys = (\<Sum>i<length xs. xs ! i * ys ! i)"
proof -
  have "dot xs ys = (\<Sum>i = 0..<length (zip xs ys). map (\<lambda>(x, y). x * y) (zip xs ys) ! i)"
    unfolding dot_def by (subst sum_list_sum_nth) simp
  also have "\<dots> = (\<Sum>i = 0..<length xs. xs ! i * ys ! i)"
    using assms by (intro sum.cong) auto
  finally show ?thesis by (simp add: atLeast0LessThan)
qed

lemma dot_adjoint:
  assumes Q: "length Q = n" "\<forall>row \<in> set Q. length row = n" and v: "length v = n" and b: "length b = n"
  shows "dot (mat_vec Q v) b = dot (matT_vec Q b) v"
proof -
  have l1: "length (mat_vec Q v) = n" by (simp add: mat_vec_def Q)
  have l2: "length (matT_vec Q b) = n" by (simp add: matT_vec_def Q)
  have row: "length (Q ! i) = n" if "i < n" for i using Q that by auto
  have "dot (mat_vec Q v) b = (\<Sum>i<n. mat_vec Q v ! i * b ! i)"
    using dot_nth [of "mat_vec Q v" b] l1 b by simp
  also have "\<dots> = (\<Sum>i<n. (\<Sum>j<n. Q ! i ! j * v ! j) * b ! i)"
  proof (intro sum.cong refl)
    fix i assume "i \<in> {..<n}"
    then have i: "i < n" by simp
    have "mat_vec Q v ! i = dot (Q ! i) v" using i Q by (simp add: mat_vec_def)
    also have "\<dots> = (\<Sum>j<n. Q ! i ! j * v ! j)"
      using dot_nth [of "Q ! i" v] row [OF i] v by simp
    finally show "mat_vec Q v ! i * b ! i = (\<Sum>j<n. Q ! i ! j * v ! j) * b ! i" by simp
  qed
  also have "\<dots> = (\<Sum>i<n. \<Sum>j<n. Q ! i ! j * v ! j * b ! i)"
    by (simp add: sum_distrib_right)
  also have "\<dots> = (\<Sum>j<n. \<Sum>i<n. Q ! i ! j * v ! j * b ! i)"
    by (rule sum.swap)
  also have "\<dots> = (\<Sum>j<n. (\<Sum>i<n. Q ! i ! j * b ! i) * v ! j)"
    by (intro sum.cong refl) (simp add: sum_distrib_right sum_distrib_left mult_ac)
  also have "\<dots> = (\<Sum>j<n. matT_vec Q b ! j * v ! j)"
  proof (intro sum.cong refl)
    fix j assume "j \<in> {..<n}"
    then have j: "j < n" by simp
    have "matT_vec Q b ! j = dot (map (\<lambda>row. row ! j) Q) b"
      using j Q by (simp add: matT_vec_def)
    also have "\<dots> = (\<Sum>i<n. map (\<lambda>row. row ! j) Q ! i * b ! i)"
      using dot_nth [of "map (\<lambda>row. row ! j) Q" b] Q b by simp
    also have "\<dots> = (\<Sum>i<n. Q ! i ! j * b ! i)"
      using Q by (intro sum.cong refl) simp
    finally show "(\<Sum>i<n. Q ! i ! j * b ! i) * v ! j = matT_vec Q b ! j * v ! j" by simp
  qed
  also have "\<dots> = dot (matT_vec Q b) v"
    using dot_nth [of "matT_vec Q b" v] l2 v by simp
  finally show ?thesis .
qed

lemma bisect_result:
  assumes "bisect f tol s e = Some y"
  shows "s \<le> e \<longrightarrow>
     s \<le> fst y \<and> fst y \<le> snd y \<and> snd y \<le> e
     \<and> ((fst y = snd y \<and> f (fst y) = 0)
        \<or> (snd y - fst y \<le> tol \<and> (fst y = s \<or> 0 < f (fst y)) \<and> (snd y = e \<or> f (snd y) < 0)))"
proof (rule bisect.raw_induct [where P = "\<lambda>f tol s e y. s \<le> e \<longrightarrow>
     s \<le> fst y \<and> fst y \<le> snd y \<and> snd y \<le> e
     \<and> ((fst y = snd y \<and> f (fst y) = 0)
        \<or> (snd y - fst y \<le> tol \<and> (fst y = s \<or> 0 < f (fst y)) \<and> (snd y = e \<or> f (snd y) < 0)))",
     OF _ assms])
  fix bis :: "(real \<Rightarrow> real) \<Rightarrow> real \<Rightarrow> real \<Rightarrow> real \<Rightarrow> (real \<times> real) option"
    and f tol s e y
  assume IH: "\<And>f tol s e y. bis f tol s e = Some y \<Longrightarrow> s \<le> e \<longrightarrow>
     s \<le> fst y \<and> fst y \<le> snd y \<and> snd y \<le> e
     \<and> ((fst y = snd y \<and> f (fst y) = 0)
        \<or> (snd y - fst y \<le> tol \<and> (fst y = s \<or> 0 < f (fst y)) \<and> (snd y = e \<or> f (snd y) < 0)))"
    and eq: "(if e - s > tol then
        (let m = (s + e) / 2; p = f m in
         if p > 0 then bis f tol m e
         else if p < 0 then bis f tol s m
         else Some (m, m))
      else Some (s, e)) = Some y"
  show "s \<le> e \<longrightarrow>
     s \<le> fst y \<and> fst y \<le> snd y \<and> snd y \<le> e
     \<and> ((fst y = snd y \<and> f (fst y) = 0)
        \<or> (snd y - fst y \<le> tol \<and> (fst y = s \<or> 0 < f (fst y)) \<and> (snd y = e \<or> f (snd y) < 0)))"
  proof
    assume se: "s \<le> e"
    define m where "m = (s + e) / 2"
    have mb: "s \<le> m" "m \<le> e" using se by (simp_all add: m_def)
    show "s \<le> fst y \<and> fst y \<le> snd y \<and> snd y \<le> e
     \<and> ((fst y = snd y \<and> f (fst y) = 0)
        \<or> (snd y - fst y \<le> tol \<and> (fst y = s \<or> 0 < f (fst y)) \<and> (snd y = e \<or> f (snd y) < 0)))"
    proof (cases "e - s > tol")
      case False
      with eq have "y = (s, e)" by simp
      with False se show ?thesis by simp
    next
      case wide: True
      show ?thesis
      proof (cases "f m > 0")
        case True
        with eq wide have "bis f tol m e = Some y" by (simp add: Let_def m_def)
        from IH [OF this] mb have
          "m \<le> fst y \<and> fst y \<le> snd y \<and> snd y \<le> e
           \<and> ((fst y = snd y \<and> f (fst y) = 0)
              \<or> (snd y - fst y \<le> tol \<and> (fst y = m \<or> 0 < f (fst y)) \<and> (snd y = e \<or> f (snd y) < 0)))"
          by blast
        with True mb show ?thesis by auto
      next
        case notpos: False
        show ?thesis
        proof (cases "f m < 0")
          case True
          with eq wide notpos have "bis f tol s m = Some y" by (simp add: Let_def m_def)
          from IH [OF this] mb have
            "s \<le> fst y \<and> fst y \<le> snd y \<and> snd y \<le> m
             \<and> ((fst y = snd y \<and> f (fst y) = 0)
                \<or> (snd y - fst y \<le> tol \<and> (fst y = s \<or> 0 < f (fst y)) \<and> (snd y = m \<or> f (snd y) < 0)))"
            by blast
          with True mb show ?thesis by auto
        next
          case False
          with eq wide notpos have y: "y = (m, m)" by (simp add: Let_def m_def)
          from False notpos have "f m = 0" by simp
          with y mb show ?thesis by simp
        qed
      qed
    qed
  qed
qed

lemma grow_s_le:
  assumes "grow_s f s = Some s'"
  shows "s \<le> 0 \<longrightarrow> s' \<le> s \<and> 0 < f s'"
proof (rule grow_s.raw_induct [where P = "\<lambda>f s s'. s \<le> 0 \<longrightarrow> s' \<le> s \<and> 0 < f s'", OF _ assms])
  fix grow :: "(real \<Rightarrow> real) \<Rightarrow> real \<Rightarrow> real option" and f s s'
  assume IH: "\<And>f s s'. grow f s = Some s' \<Longrightarrow> s \<le> 0 \<longrightarrow> s' \<le> s \<and> 0 < f s'"
    and eq: "(if f s \<le> 0 then grow f (s * 2) else Some s) = Some s'"
  show "s \<le> 0 \<longrightarrow> s' \<le> s \<and> 0 < f s'"
  proof (cases "f s \<le> 0")
    case True
    with eq have "grow f (s * 2) = Some s'" by simp
    from IH [OF this] show ?thesis by auto
  next
    case False
    with eq show ?thesis by simp
  qed
qed

lemma grow_e_ge:
  assumes "grow_e f e = Some e'"
  shows "0 \<le> e \<longrightarrow> e \<le> e' \<and> f e' < 0"
proof (rule grow_e.raw_induct [where P = "\<lambda>f e e'. 0 \<le> e \<longrightarrow> e \<le> e' \<and> f e' < 0", OF _ assms])
  fix grow :: "(real \<Rightarrow> real) \<Rightarrow> real \<Rightarrow> real option" and f e e'
  assume IH: "\<And>f e e'. grow f e = Some e' \<Longrightarrow> 0 \<le> e \<longrightarrow> e \<le> e' \<and> f e' < 0"
    and eq: "(if f e \<ge> 0 then grow f (e * 2) else Some e) = Some e'"
  show "0 \<le> e \<longrightarrow> e \<le> e' \<and> f e' < 0"
  proof (cases "f e \<ge> 0")
    case True
    with eq have "grow f (e * 2) = Some e'" by simp
    from IH [OF this] show ?thesis by auto
  next
    case False
    with eq show ?thesis by simp
  qed
qed

lemma seed_bracket_signs:
  assumes "seed_bracket lmb (s, e) = (s', e')"
    and "\<forall>a. s = Some a \<longrightarrow> a < 0" and "\<forall>a. e = Some a \<longrightarrow> 0 < a"
  shows "(\<forall>a. s' = Some a \<longrightarrow> a < 0) \<and> (\<forall>a. e' = Some a \<longrightarrow> 0 < a)"
  using assms
proof (induction lmb arbitrary: s e)
  case Nil
  then show ?case by simp
next
  case (Cons l lmb)
  let ?s1 = "if l > 0 then Some (case s of None \<Rightarrow> - 1 / l | Some s' \<Rightarrow> max s' (- 1 / l)) else s"
  let ?e1 = "if l < 0 then Some (case e of None \<Rightarrow> - 1 / l | Some e' \<Rightarrow> min e' (- 1 / l)) else e"
  from Cons.prems(1) have rec: "seed_bracket lmb (?s1, ?e1) = (s', e')" by simp
  have s1: "\<forall>a. ?s1 = Some a \<longrightarrow> a < 0"
    using Cons.prems(2) by (auto split: option.splits simp: max_def)
  have e1: "\<forall>a. ?e1 = Some a \<longrightarrow> 0 < a"
    using Cons.prems(3) by (auto split: option.splits simp: min_def divide_neg_neg)
  from Cons.IH [OF rec s1 e1] show ?case .
qed

lemma bisect_midpoint:
  assumes "bisect f tol s e = Some y"
  shows "s < e \<longrightarrow> s < (fst y + snd y) / 2 \<and> (fst y + snd y) / 2 < e"
proof (rule bisect.raw_induct [where P = "\<lambda>f tol s e y.
     s < e \<longrightarrow> s < (fst y + snd y) / 2 \<and> (fst y + snd y) / 2 < e", OF _ assms])
  fix bis :: "(real \<Rightarrow> real) \<Rightarrow> real \<Rightarrow> real \<Rightarrow> real \<Rightarrow> (real \<times> real) option"
    and f tol s e y
  assume IH: "\<And>f tol s e y. bis f tol s e = Some y \<Longrightarrow>
     s < e \<longrightarrow> s < (fst y + snd y) / 2 \<and> (fst y + snd y) / 2 < e"
    and eq: "(if e - s > tol then
        (let m = (s + e) / 2; p = f m in
         if p > 0 then bis f tol m e
         else if p < 0 then bis f tol s m
         else Some (m, m))
      else Some (s, e)) = Some y"
  show "s < e \<longrightarrow> s < (fst y + snd y) / 2 \<and> (fst y + snd y) / 2 < e"
  proof
    assume se: "s < e"
    define m where "m = (s + e) / 2"
    have mb: "s < m" "m < e" using se by (simp_all add: m_def)
    show "s < (fst y + snd y) / 2 \<and> (fst y + snd y) / 2 < e"
    proof (cases "e - s > tol")
      case False
      with eq have "y = (s, e)" by simp
      with se show ?thesis by simp
    next
      case wide: True
      show ?thesis
      proof (cases "f m > 0")
        case True
        with eq wide have "bis f tol m e = Some y" by (simp add: Let_def m_def)
        from IH [OF this] mb show ?thesis by auto
      next
        case notpos: False
        show ?thesis
        proof (cases "f m < 0")
          case True
          with eq wide notpos have "bis f tol s m = Some y" by (simp add: Let_def m_def)
          from IH [OF this] mb show ?thesis by auto
        next
          case False
          with eq wide notpos have "y = (m, m)" by (simp add: Let_def m_def)
          with mb show ?thesis by simp
        qed
      qed
    qed
  qed
qed

lemma seed_bracket_poles:
  assumes "seed_bracket lmb (s, e) = (s', e')"
  shows "(\<forall>a. s = Some a \<longrightarrow> (\<exists>a'. s' = Some a' \<and> a \<le> a'))
       \<and> (\<forall>a. e = Some a \<longrightarrow> (\<exists>a'. e' = Some a' \<and> a' \<le> a))
       \<and> (\<forall>l \<in> set lmb. 0 < l \<longrightarrow> (\<exists>a'. s' = Some a' \<and> - 1 / l \<le> a'))
       \<and> (\<forall>l \<in> set lmb. l < 0 \<longrightarrow> (\<exists>a'. e' = Some a' \<and> a' \<le> - 1 / l))"
  using assms
proof (induction lmb arbitrary: s e)
  case Nil
  then show ?case by simp
next
  case (Cons l lmb)
  let ?s1 = "if l > 0 then Some (case s of None \<Rightarrow> - 1 / l | Some s' \<Rightarrow> max s' (- 1 / l)) else s"
  let ?e1 = "if l < 0 then Some (case e of None \<Rightarrow> - 1 / l | Some e' \<Rightarrow> min e' (- 1 / l)) else e"
  from Cons.prems have rec: "seed_bracket lmb (?s1, ?e1) = (s', e')" by simp
  from Cons.IH [OF rec] have
    a1: "\<forall>a. ?s1 = Some a \<longrightarrow> (\<exists>a'. s' = Some a' \<and> a \<le> a')"
    and a2: "\<forall>a. ?e1 = Some a \<longrightarrow> (\<exists>a'. e' = Some a' \<and> a' \<le> a)"
    and a3: "\<forall>l \<in> set lmb. 0 < l \<longrightarrow> (\<exists>a'. s' = Some a' \<and> - 1 / l \<le> a')"
    and a4: "\<forall>l \<in> set lmb. l < 0 \<longrightarrow> (\<exists>a'. e' = Some a' \<and> a' \<le> - 1 / l)"
    by simp_all
  have b1: "\<exists>a'. s' = Some a' \<and> a \<le> a'" if "s = Some a" for a
  proof (cases "l > 0")
    case True
    with that a1 obtain a' where "s' = Some a'" "max a (- 1 / l) \<le> a'" by auto
    then show ?thesis by auto
  next
    case False
    with that a1 show ?thesis by auto
  qed
  have b2: "\<exists>a'. e' = Some a' \<and> a' \<le> a" if "e = Some a" for a
  proof (cases "l < 0")
    case True
    with that a2 obtain a' where "e' = Some a'" "a' \<le> min a (- 1 / l)" by auto
    then show ?thesis by auto
  next
    case False
    with that a2 show ?thesis by auto
  qed
  have b3: "\<exists>a'. s' = Some a' \<and> - 1 / l \<le> a'" if "0 < l"
  proof (cases s)
    case None
    with that a1 show ?thesis by auto
  next
    case (Some a)
    with that a1 obtain a' where "s' = Some a'" "max a (- 1 / l) \<le> a'" by auto
    then show ?thesis by auto
  qed
  have b4: "\<exists>a'. e' = Some a' \<and> a' \<le> - 1 / l" if "l < 0"
  proof (cases e)
    case None
    with that a2 show ?thesis by auto
  next
    case (Some a)
    with that a2 obtain a' where "e' = Some a'" "a' \<le> min a (- 1 / l)" by auto
    then show ?thesis by auto
  qed
  from b1 b2 b3 b4 a3 a4 show ?case by auto
qed

text \<open>Strictly between the seeds no denominator \<open>1 + nu*l\<close> of \<open>xhat\<close> vanishes.\<close>

lemma no_pole_inside:
  assumes sb: "seed_bracket lmb (None, None) = (so, eo)"
    and lo: "\<forall>a. so = Some a \<longrightarrow> a < nu" and hi: "\<forall>a. eo = Some a \<longrightarrow> nu < a"
    and l: "l \<in> set lmb"
  shows "0 < 1 + nu * l"
proof -
  from seed_bracket_poles [OF sb] have
    p: "\<forall>l \<in> set lmb. 0 < l \<longrightarrow> (\<exists>a'. so = Some a' \<and> - 1 / l \<le> a')"
    and q: "\<forall>l \<in> set lmb. l < 0 \<longrightarrow> (\<exists>a'. eo = Some a' \<and> a' \<le> - 1 / l)"
    by simp_all
  consider "0 < l" | "l < 0" | "l = 0" by linarith
  then show ?thesis
  proof cases
    case 1
    with p l lo have "- 1 / l < nu" by fastforce
    then have "(- 1 / l) * l < nu * l" using 1 by (rule mult_strict_right_mono)
    with 1 show ?thesis by simp
  next
    case 2
    with q l hi have "nu < - 1 / l" by fastforce
    then have "(- 1 / l) * l < nu * l" using 2 by (rule mult_strict_right_mono_neg)
    with 2 show ?thesis by simp
  next
    case 3
    then show ?thesis by simp
  qed
qed

lemma one_qcqp_slow:
  assumes slow: "equality_cons \<or> 0 < quad_val A b c z"
    and eg: "eigh (todense A) = (lmb, Q)"
    and ret: "one_qcqp eigh z A b c equality_cons tol = Some x"
  shows "\<exists>s0 e0 s e y.
           seed_bracket lmb (None, None) = (s0, e0)
         \<and> (case s0 of None \<Rightarrow> grow_s (phi lmb (matT_vec Q z) (matT_vec Q b) c) (- 1) | Some s \<Rightarrow> Some s) = Some s
         \<and> (case e0 of None \<Rightarrow> grow_e (phi lmb (matT_vec Q z) (matT_vec Q b) c) 1 | Some e \<Rightarrow> Some e) = Some e
         \<and> bisect (phi lmb (matT_vec Q z) (matT_vec Q b) c) tol s e = Some y
         \<and> x = mat_vec Q (xhat_of lmb (matT_vec Q z) (matT_vec Q b) ((fst y + snd y) / 2))"
proof -
  from slow have nf: "\<not> (\<not> equality_cons \<and> quad_form A z + dot z b + c \<le> 0)"
    by (auto simp: quad_val_def)
  obtain s0 e0 where sb: "seed_bracket lmb (None, None) = (s0, e0)"
    by (cases "seed_bracket lmb (None, None)") auto
  let ?f = "phi lmb (matT_vec Q z) (matT_vec Q b) c"
  have "one_qcqp eigh z A b c equality_cons tol =
     (case (case s0 of None \<Rightarrow> grow_s ?f (- 1) | Some s \<Rightarrow> Some s) of
           None \<Rightarrow> None
         | Some s \<Rightarrow>
             (case (case e0 of None \<Rightarrow> grow_e ?f 1 | Some e \<Rightarrow> Some e) of
                None \<Rightarrow> None
              | Some e \<Rightarrow>
                  (case bisect ?f tol s e of
                     None \<Rightarrow> None
                   | Some (s', e') \<Rightarrow>
                       Some (mat_vec Q (xhat_of lmb (matT_vec Q z) (matT_vec Q b) ((s' + e') / 2))))))"
    unfolding one_qcqp_def Let_def eg prod.case sb by (simp only: nf if_False)
  with ret have r:
    "(case (case s0 of None \<Rightarrow> grow_s ?f (- 1) | Some s \<Rightarrow> Some s) of
           None \<Rightarrow> None
         | Some s \<Rightarrow>
             (case (case e0 of None \<Rightarrow> grow_e ?f 1 | Some e \<Rightarrow> Some e) of
                None \<Rightarrow> None
              | Some e \<Rightarrow>
                  (case bisect ?f tol s e of
                     None \<Rightarrow> None
                   | Some (s', e') \<Rightarrow>
                       Some (mat_vec Q (xhat_of lmb (matT_vec Q z) (matT_vec Q b) ((s' + e') / 2)))))) = Some x"
    by simp
  then obtain s where s: "(case s0 of None \<Rightarrow> grow_s ?f (- 1) | Some s \<Rightarrow> Some s) = Some s"
    by (cases "(case s0 of None \<Rightarrow> grow_s ?f (- 1) | Some s \<Rightarrow> Some s)") simp_all
  with r obtain e where e: "(case e0 of None \<Rightarrow> grow_e ?f 1 | Some e \<Rightarrow> Some e) = Some e"
    by (cases "(case e0 of None \<Rightarrow> grow_e ?f 1 | Some e \<Rightarrow> Some e)") simp_all
  with r s obtain y where y: "bisect ?f tol s e = Some y"
    by (cases "bisect ?f tol s e") simp_all
  with r s e have "x = mat_vec Q (xhat_of lmb (matT_vec Q z) (matT_vec Q b) ((fst y + snd y) / 2))"
    by (cases y) simp
  with sb s e y show ?thesis by blast
qed

lemma length_xhat_of:
  "length lmb = n \<Longrightarrow> length zhat = n \<Longrightarrow> length bhat = n \<Longrightarrow> length (xhat_of lmb zhat bhat nu) = n"
  by (simp add: xhat_of_def)

lemma residual_phi:
  assumes eig: "is_eigh n A (lmb, Q)" and lb: "length b = n"
  shows "quad_val A b c (mat_vec Q (xhat_of lmb (matT_vec Q z) (matT_vec Q b) nu))
           = phi lmb (matT_vec Q z) (matT_vec Q b) c nu"
proof -
  let ?xh = "xhat_of lmb (matT_vec Q z) (matT_vec Q b) nu"
  from eig have ll: "length lmb = n" and lq: "length Q = n" and rows: "\<forall>row \<in> set Q. length row = n"
    by (auto simp: is_eigh_def)
  have lx: "length ?xh = n"
    by (rule length_xhat_of) (simp_all add: ll length_matT_vec lq)
  from eig lx have qf: "quad_form A (mat_vec Q ?xh) = dot lmb (map (\<lambda>x. x ^ 2) ?xh)"
    unfolding is_eigh_def by blast
  have ad: "dot (mat_vec Q ?xh) b = dot (matT_vec Q b) ?xh"
    by (rule dot_adjoint [OF lq rows lx lb])
  show ?thesis by (simp add: quad_val_def phi_def Let_def qf ad)
qed

text \<open>
  What the slow path returns, with a correct eigendecomposition \<open>(lmb, Q)\<close> of \<open>A\<close>: the
  bisection starts from a bracket \<open>s0 < 0 < e0\<close> and ends with a bracket \<open>[s, e]\<close> inside it that
  either has collapsed on an exact root of \<open>phi\<close> or has width at most \<open>tol\<close>, each end being
  the initial one or a point where \<open>phi\<close> has the sign the bisection keeps there; \<open>x\<close> is
  \<open>Q*xhat(nu)\<close> for the midpoint \<open>nu\<close>, which lies strictly inside the initial bracket, where no
  denominator \<open>1 + nu*l\<close> of \<open>xhat\<close> vanishes, and the boundary residual \<open>x.T*A*x + b.T*x + c\<close>
  equals \<open>phi(nu)\<close>.
\<close>

lemma one_qcqp_slow_path:
  assumes lb: "length b = n"
    and eig: "is_eigh n A (eigh (todense A))"
    and slow: "equality_cons \<or> 0 < quad_val A b c z"
    and ret: "one_qcqp eigh z A b c equality_cons tol = Some x"
  shows "\<exists>lmb Q s0 e0 s e.
           eigh (todense A) = (lmb, Q)
         \<and> s0 < 0 \<and> 0 < e0 \<and> s0 \<le> s \<and> s \<le> e \<and> e \<le> e0
         \<and> s0 < (s + e) / 2 \<and> (s + e) / 2 < e0
         \<and> (\<forall>l \<in> set lmb. 0 < 1 + (s + e) / 2 * l)
         \<and> ((s = e \<and> phi lmb (matT_vec Q z) (matT_vec Q b) c s = 0)
            \<or> (e - s \<le> tol
               \<and> (s = s0 \<or> 0 < phi lmb (matT_vec Q z) (matT_vec Q b) c s)
               \<and> (e = e0 \<or> phi lmb (matT_vec Q z) (matT_vec Q b) c e < 0)))
         \<and> x = mat_vec Q (xhat_of lmb (matT_vec Q z) (matT_vec Q b) ((s + e) / 2))
         \<and> quad_val A b c x = phi lmb (matT_vec Q z) (matT_vec Q b) c ((s + e) / 2)"
proof -
  obtain lmb Q where eg: "eigh (todense A) = (lmb, Q)" by (cases "eigh (todense A)") auto
  with eig have e': "is_eigh n A (lmb, Q)" by simp
  let ?f = "phi lmb (matT_vec Q z) (matT_vec Q b) c"
  from one_qcqp_slow [OF slow eg ret] obtain so eo s0 e0 y where
    sb: "seed_bracket lmb (None, None) = (so, eo)"
    and s0: "(case so of None \<Rightarrow> grow_s ?f (- 1) | Some s \<Rightarrow> Some s) = Some s0"
    and e0: "(case eo of None \<Rightarrow> grow_e ?f 1 | Some e \<Rightarrow> Some e) = Some e0"
    and bi: "bisect ?f tol s0 e0 = Some y"
    and x: "x = mat_vec Q (xhat_of lmb (matT_vec Q z) (matT_vec Q b) ((fst y + snd y) / 2))"
    by blast
  from seed_bracket_signs [OF sb] have
    so: "\<forall>a. so = Some a \<longrightarrow> a < 0" and eo: "\<forall>a. eo = Some a \<longrightarrow> 0 < a" by simp_all
  have s0neg: "s0 < 0"
  proof (cases so)
    case None
    with s0 have "grow_s ?f (- 1) = Some s0" by simp
    from grow_s_le [OF this] show ?thesis by simp
  next
    case (Some a)
    with s0 so show ?thesis by simp
  qed
  have e0pos: "0 < e0"
  proof (cases eo)
    case None
    with e0 have "grow_e ?f 1 = Some e0" by simp
    from grow_e_ge [OF this] show ?thesis by simp
  next
    case (Some a)
    with e0 eo show ?thesis by simp
  qed
  from s0neg e0pos have "s0 \<le> e0" by simp
  with bisect_result [OF bi] have
    br: "s0 \<le> fst y \<and> fst y \<le> snd y \<and> snd y \<le> e0
     \<and> ((fst y = snd y \<and> ?f (fst y) = 0)
        \<or> (snd y - fst y \<le> tol \<and> (fst y = s0 \<or> 0 < ?f (fst y)) \<and> (snd y = e0 \<or> ?f (snd y) < 0)))"
    by blast
  have res: "quad_val A b c x = ?f ((fst y + snd y) / 2)"
    unfolding x by (rule residual_phi [OF e' lb])
  from s0neg e0pos have "s0 < e0" by simp
  with bisect_midpoint [OF bi] have
    mid: "s0 < (fst y + snd y) / 2" "(fst y + snd y) / 2 < e0" by simp_all
  have lo: "\<forall>a. so = Some a \<longrightarrow> a < (fst y + snd y) / 2" using s0 mid(1) by auto
  have hi: "\<forall>a. eo = Some a \<longrightarrow> (fst y + snd y) / 2 < a" using e0 mid(2) by auto
  have np: "\<forall>l \<in> set lmb. 0 < 1 + (fst y + snd y) / 2 * l"
    using no_pole_inside [OF sb lo hi] by blast
  from eg s0neg e0pos br mid np x res show ?thesis by blast
qed

lemma one_qcqp_1x1_neg:
  assumes "l < 0" and "eq \<or> l * z * z + z * b + c > 0"
  shows "one_qcqp eigh_1x1 [z] (sp_1x1 l) [b] c eq tol =
     (case grow_s (phi [l] [z] [b] c) (- 1) of None \<Rightarrow> None
      | Some s \<Rightarrow> (case bisect (phi [l] [z] [b] c) tol s (- 1 / l) of None \<Rightarrow> None
          | Some (s', e') \<Rightarrow> Some [- (((s' + e') / 2 * b - 2 * z) / (2 * (1 + (s' + e') / 2 * l)))]))"
  using assms
  by (auto simp add: one_qcqp_def quad_form_1x1 dot_1 eigh_1x1_dense matT_vec_1 mat_vec_1 xhat_of_1
      Let_def split: option.splits)

lemma qcqp_origin:
  "one_qcqp eigh_1x1 [0] (sp_1x1 (- 1)) [0] 1 False (1 / 10 ^ 6) = Some [0]"
proof -
  have ph: "phi [- 1] [0] [0] 1 = (\<lambda>nu. 1)"
    by (rule ext) (simp add: phi_1)
  have g: "grow_s (phi [- 1] [0] [0] 1) (- 1) = Some (- 1)"
    unfolding ph by (subst grow_s.simps) simp
  have b1: "bisect (phi [- 1] [0] [0] 1) (1 / 10 ^ 6) (- 1) 1 = Some (1 - 1 / 2 ^ 20, 1)"
    unfolding ph by (simp add: bisect.simps Let_def)
  show ?thesis
    using g b1 by (subst one_qcqp_1x1_neg) simp_all
qed

text \<open>
  The tolerance is a tolerance on the dual variable. For the constraint \<open>x^2 - 1 = 0\<close> and the
  target \<open>z = 1/1000\<close> the bisection ends, after 21 halvings of \<open>[-1, 1]\<close>, within \<open>10^-6\<close> of the
  root \<open>nu = -999/1000\<close>, and the returned \<open>x = 262144/262125\<close> leaves a boundary residual above
  \<open>10^-4\<close>.
\<close>

lemma qcqp_near_pole:
  "one_qcqp eigh_1x1 [1 / 1000] (sp_1x1 1) [0] (- 1) True (1 / 10 ^ 6) = Some [262144 / 262125]"
proof -
  have g: "grow_e (phi [1] [1 / 1000] [0] (- 1)) 1 = Some 1"
    by (subst grow_e.simps) (simp add: phi_1)
  have b1: "bisect (phi [1] [1 / 1000] [0] (- 1)) (1 / 10 ^ 6) (- 1) 1
              = Some (- (130941 / 131072), - (1047527 / 1048576))"
    by (simp add: bisect.simps phi_1 Let_def)
  show ?thesis
    using g b1 by (subst one_qcqp_1x1_pos) simp_all
qed

lemma qcqp_near_pole_residual:
  "1 / 10 ^ 4 < quad_val (sp_1x1 1) [0] (- 1) [262144 / 262125]"
  by (simp add: quad_val_def quad_form_1x1 dot_1)

lemma dot_zero_left: "dot (replicate n 0) ys = 0"
proof (induction ys arbitrary: n)
  case Nil then show ?case by (simp add: dot_def)
next
  case (Cons y ys)
  from Cons [of "n - 1"] show ?case by (cases n) (simp_all add: dot_def)
qed

lemma dot_zero_right: "\<forall>y \<in> set ys. y = 0 \<Longrightarrow> dot xs ys = 0"
proof (induction xs arbitrary: ys)
  case Nil then show ?case by (simp add: dot_def)
next
  case (Cons x xs)
  show ?case
  proof (cases ys)
    case Nil then show ?thesis by (simp add: dot_def)
  next
    case (Cons y ys')
    with Cons.prems have "y = 0" "\<forall>y \<in> set ys'. y = 0" by simp_all
    with Cons.IH [of ys'] Cons show ?thesis by (simp add: dot_def)
  qed
qed

lemma matT_vec_zeros: "matT_vec Q (zeros n) = zeros (length Q)"
  by (simp add: matT_vec_def zeros_def dot_replicate_zero map_replicate_const)

lemma xhat_of_zeros: "y \<in> set (xhat_of lmb (zeros k) (zeros k) nu) \<Longrightarrow> y = 0"
  by (auto simp: xhat_of_def zeros_def dest!: set_zip_rightD)

lemma mat_vec_zero: "\<forall>y \<in> set v. y = 0 \<Longrightarrow> mat_vec Q v = zeros (length Q)"
  by (simp add: mat_vec_def zeros_def dot_zero_right map_replicate_const)

lemma quad_form_zeros: "sp_square n A \<Longrightarrow> quad_form A (zeros n) = 0"
proof -
  assume sq: "sp_square n A"
  have "(\<Sum>(i, j, v)\<leftarrow>es. v * zeros n ! i * zeros n ! j) = 0"
    if "list_all (\<lambda>(i, j, v). i < n \<and> j < n) es" for es :: "(nat \<times> nat \<times> real) list"
    using that by (induction es) (auto simp: zeros_def)
  with sq show ?thesis by (simp add: quad_form_def sp_square_def)
qed

lemma quad_val_zeros: "sp_square n A \<Longrightarrow> quad_val A b c (zeros n) = c"
  by (simp add: quad_val_def quad_form_zeros) (simp add: zeros_def dot_zero_left)

text \<open>
  C4. With the target \<open>z = 0\<close> and the linear term \<open>b = 0\<close> the transformed \<open>zhat\<close> and \<open>bhat\<close> are
  zero and \<open>xhat(nu)\<close> is zero for every \<open>nu\<close>: whatever the bisection does, the point the slow
  path returns is \<open>x = 0\<close>, whose boundary residual is \<open>c\<close>. So for every \<open>c \<noteq> 0\<close> (with \<open>c > 0\<close>
  for an inequality, where the fast path does not trigger) the returned point misses the
  boundary by \<open>\<bar>c\<bar>\<close>, whatever the tolerance, and for an inequality it is infeasible. For the
  constraint \<open>1 - x^2 \<le> 0\<close> (\<open>A = [[-1]]\<close>, \<open>b = 0\<close>, \<open>c = 1\<close>) \<open>one_qcqp\<close> returns \<open>x = 0\<close> with the
  residual \<open>1\<close>, although \<open>x = 1\<close> and \<open>x = -1\<close> lie on the boundary: \<open>phi\<close> is constantly \<open>1\<close>,
  and the bisection runs into the end \<open>nu = 1\<close> of the bracket, a pole seeded from the
  eigenvalue, where the sign of \<open>phi\<close> is never tested.
\<close>

theorem one_qcqp_zero_target:
  assumes sq: "sp_square n A"
    and lq: "length (snd (eigh (todense A))) = n"
    and slow: "equality_cons \<or> 0 < c"
    and ret: "one_qcqp eigh (zeros n) A (zeros n) c equality_cons tol = Some x"
  shows "x = zeros n \<and> quad_val A (zeros n) c x = c"
proof -
  obtain lmb Q where eg: "eigh (todense A) = (lmb, Q)" by (cases "eigh (todense A)") auto
  with lq have lQ: "length Q = n" by simp
  from slow have slow': "equality_cons \<or> 0 < quad_val A (zeros n) c (zeros n)"
    by (simp add: quad_val_zeros [OF sq])
  from one_qcqp_slow [OF slow' eg ret] obtain y where
    "x = mat_vec Q (xhat_of lmb (matT_vec Q (zeros n)) (matT_vec Q (zeros n)) ((fst y + snd y) / 2))"
    by blast
  then have "x = mat_vec Q (xhat_of lmb (zeros n) (zeros n) ((fst y + snd y) / 2))"
    by (simp add: matT_vec_zeros lQ)
  also have "\<dots> = zeros n"
    using mat_vec_zero [of "xhat_of lmb (zeros n) (zeros n) ((fst y + snd y) / 2)" Q] xhat_of_zeros lQ
    by blast
  finally have x: "x = zeros n" .
  then show ?thesis by (simp add: quad_val_zeros [OF sq])
qed

theorem one_qcqp_zero_target_witness:
  "sp_square 1 (sp_1x1 (- 1))
   \<and> length (snd (eigh_1x1 (todense (sp_1x1 (- 1))))) = 1
   \<and> (False \<or> (0::real) < 1)
   \<and> one_qcqp eigh_1x1 (zeros 1) (sp_1x1 (- 1)) (zeros 1) 1 False (1 / 10 ^ 6) = Some [0]
   \<and> [0] = zeros 1
   \<and> quad_val (sp_1x1 (- 1)) (zeros 1) 1 [0] = 1
   \<and> \<not> quad_val (sp_1x1 (- 1)) (zeros 1) 1 [0] \<le> 1 / 10 ^ 6
   \<and> quad_val (sp_1x1 (- 1)) (zeros 1) 1 [1] = 0
   \<and> quad_val (sp_1x1 (- 1)) (zeros 1) 1 [- 1] = 0"
proof -
  have z1: "zeros 1 = [0]" by (simp add: zeros_def)
  have h1: "sp_square 1 (sp_1x1 (- 1))" by (rule sp_square_1x1)
  have h2: "length (snd (eigh_1x1 (todense (sp_1x1 (- 1))))) = 1" by (simp add: eigh_1x1_dense)
  have h3: "False \<or> (0::real) < 1" by simp
  have h4: "one_qcqp eigh_1x1 (zeros 1) (sp_1x1 (- 1)) (zeros 1) 1 False (1 / 10 ^ 6) = Some [0]"
    unfolding z1 by (rule qcqp_origin)
  note r = one_qcqp_zero_target [where eigh = eigh_1x1, OF h1 h2 h3 h4]
  have c1: "[0] = zeros 1" by (rule r [THEN conjunct1])
  have c2: "quad_val (sp_1x1 (- 1)) (zeros 1) 1 [0] = 1" by (rule r [THEN conjunct2])
  have c3: "\<not> quad_val (sp_1x1 (- 1)) (zeros 1) 1 [0] \<le> 1 / 10 ^ 6" unfolding c2 by simp
  have f1: "quad_val (sp_1x1 (- 1)) (zeros 1) 1 [1] = 0"
    unfolding z1 by (simp add: quad_val_def quad_form_1x1 dot_1)
  have f2: "quad_val (sp_1x1 (- 1)) (zeros 1) 1 [- 1] = 0"
    unfolding z1 by (simp add: quad_val_def quad_form_1x1 dot_1)
  from h1 h2 h3 h4 c1 c2 c3 f1 f2 show ?thesis by blast
qed

end
